theory Spec2Isabelle
  imports Complex_Main "HOL-Library.Word"
begin

unbundle bit_operations_syntax

section \<open>Convolutional FEC codec of liquid-dsp (src/fec/src/fec\_conv.c)\<close>

text \<open>
  The file \<^verbatim>\<open>fec_conv.c\<close> is embedded function by function. C objects become values:
  \<^item> \<^verbatim>\<open>unsigned char\<close> is \<open>8 word\<close>, the shift register \<^verbatim>\<open>unsigned int sr\<close> is
    \<open>32 word\<close> (bits shifted past bit 31 are lost, as in C);
  \<^item> the other \<^verbatim>\<open>unsigned int\<close> values (counters and lengths) are \<open>nat\<close> with the
    reduction modulo \<open>2 ^ 32\<close> written out (\<open>wrap32\<close>);
  \<^item> a pointer to bytes (\<^verbatim>\<open>unsigned char *\<close>) is the memory it points to, read as a
    function from the index to the byte stored there;
  \<^item> \<^verbatim>\<open>struct fec_s\<close> is the record \<open>fec_s\<close>, with the function pointers of the
    Viterbi decoder as fields;
  \<^item> \<^verbatim>\<open>exit\<close> is the left summand of the result of \<open>fec_conv_create\<close>; a failed
    \<^verbatim>\<open>assert\<close> and a write of the file through a null pointer or past the end of an
    array are values of type \<open>fault\<close>.
\<close>

type_synonym u8 = "8 word"
type_synonym u32 = "32 word"
type_synonym buffer = "nat \<Rightarrow> u8"

definition wrap32 :: "nat \<Rightarrow> nat" where
  "wrap32 x = x mod 2 ^ 32"

subsection \<open>Declarations that live outside the file\<close>

text \<open>
  The enumeration \<^verbatim>\<open>fec_scheme\<close> is declared in liquid.h. The file names four of its
  members; every other member is \<open>FEC_OTHER i\<close>.
\<close>

datatype fec_scheme =
  FEC_CONV_V27 | FEC_CONV_V29 | FEC_CONV_V39 | FEC_CONV_V615 | FEC_OTHER nat

text \<open>
  The five entry points of one Viterbi decoder of the external library (fec.h), called
  through the function pointers of \<^verbatim>\<open>struct fec_s\<close>. The decoder object behind the
  \<^verbatim>\<open>void *\<close> is a value of type \<open>'vp\<close>. The entry points that work on a decoder
  receive the pointer as the file passes it, \<open>None\<close> being \<^verbatim>\<open>NULL\<close>, and return the
  object behind it after the call; the update receives the pointer to the symbol array
  in the same way. What an entry point does with a null pointer is its own matter. The
  file discards the values the entry points return. Allocation is taken to succeed.
\<close>

record 'vp viterbi_ops =
  vcreate :: "nat \<Rightarrow> 'vp"
  vinit :: "'vp option \<Rightarrow> nat \<Rightarrow> 'vp option"
  vupdate_blk :: "'vp option \<Rightarrow> u8 list option \<Rightarrow> nat \<Rightarrow> 'vp option"
  vchainback :: "'vp option \<Rightarrow> buffer \<Rightarrow> nat \<Rightarrow> nat \<Rightarrow> buffer"
  vdelete :: "'vp \<Rightarrow> unit"

text \<open>
  What the file takes from the rest of the program, as parameters: the rate function of
  fec.c, the four polynomial tables, the four decoders of the library and the two macros
  \<^verbatim>\<open>FEC_SOFTBIT_0\<close> and \<^verbatim>\<open>FEC_SOFTBIT_1\<close>.
\<close>

record 'vp externals =
  fec_get_rate :: "fec_scheme \<Rightarrow> rat"
  fec_conv27_poly :: "nat \<Rightarrow> u32"
  fec_conv29_poly :: "nat \<Rightarrow> u32"
  fec_conv39_poly :: "nat \<Rightarrow> u32"
  fec_conv615_poly :: "nat \<Rightarrow> u32"
  viterbi27 :: "'vp viterbi_ops"
  viterbi29 :: "'vp viterbi_ops"
  viterbi39 :: "'vp viterbi_ops"
  viterbi615 :: "'vp viterbi_ops"
  FEC_SOFTBIT_0 :: u8
  FEC_SOFTBIT_1 :: u8

text \<open>
  Modelled from the spec: \<^verbatim>\<open>parity\<close> (fec.h) is not in the file. The spec calls it the
  XOR-reduction, or even-or-odd popcount, of its argument.
\<close>

definition popcount :: "u32 \<Rightarrow> nat" where
  "popcount x = length (filter (bit x) [0..<32])"

definition parity :: "u32 \<Rightarrow> bool" where
  "parity x = odd (popcount x)"

text \<open>
  Modelled from the spec: the scheme catalog (constraint length \<open>K\<close> and number of
  outputs \<open>R\<close> of each supported scheme), as the table of the external interfaces gives
  it.
\<close>

fun catalog :: "fec_scheme \<Rightarrow> (nat \<times> nat) option" where
  "catalog FEC_CONV_V27 = Some (2, 7)"
| "catalog FEC_CONV_V29 = Some (2, 9)"
| "catalog FEC_CONV_V39 = Some (3, 9)"
| "catalog FEC_CONV_V615 = Some (6, 15)"
| "catalog (FEC_OTHER i) = None"

text \<open>
  Modelled from the spec: \<^verbatim>\<open>fec_get_enc_msg_length\<close> (fec.c) is not in the file. The
  spec gives the encoded-length formula: \<open>R * (8 * decoded_bytes + K - 1)\<close> bits,
  rounded up to whole bytes. For a scheme outside the catalog the spec gives no length
  and the file never asks for one; the model answers 0 there.
\<close>

definition encoded_bits :: "nat \<Rightarrow> nat \<Rightarrow> nat \<Rightarrow> nat" where
  "encoded_bits r k decoded_bytes = r * (8 * decoded_bytes + k - 1)"

definition encoded_bytes :: "nat \<Rightarrow> nat \<Rightarrow> nat \<Rightarrow> nat" where
  "encoded_bytes r k decoded_bytes = (encoded_bits r k decoded_bytes + 7) div 8"

definition fec_get_enc_msg_length :: "fec_scheme \<Rightarrow> nat \<Rightarrow> nat" where
  "fec_get_enc_msg_length fs msg_len =
     (case catalog fs of None \<Rightarrow> 0 | Some (r, k) \<Rightarrow> encoded_bytes r k msg_len)"

text \<open>
  Modelled from the spec: \<^verbatim>\<open>liquid_unpack_bytes\<close> is not in the file. The spec has the
  encoded bytes unpacked into one symbol per bit; the bits of a byte are taken most
  significant first, the order in which the encoder packed them. The result is the
  content of the first \<open>8 * num_bytes\<close> cells of the symbol array.
\<close>

definition liquid_unpack_bytes :: "buffer \<Rightarrow> nat \<Rightarrow> u8 list" where
  "liquid_unpack_bytes sym_in num_bytes =
     map (\<lambda>k. drop_bit (7 - k mod 8) (sym_in (k div 8)) AND 1) [0..<8 * num_bytes]"

subsection \<open>The codec object\<close>

text \<open>
  \<^verbatim>\<open>struct fec_s\<close>, with the fields the file reads or writes. \<open>enc_bits\<close> and \<open>vp\<close>
  are pointers: \<open>None\<close> is \<^verbatim>\<open>NULL\<close>, \<open>Some\<close> holds the array, or the decoder object,
  pointed to. The fields \<^verbatim>\<open>encode_func\<close> and \<^verbatim>\<open>decode_func\<close> always point to the two
  functions below and are left out.
\<close>

record 'vp fec_s =
  scheme :: fec_scheme
  rate :: rat
  R :: nat
  K :: nat
  poly :: "nat \<Rightarrow> u32"
  num_dec_bytes :: nat
  num_enc_bytes :: nat
  enc_bits :: "u8 list option"
  vp :: "'vp option"
  create_viterbi :: "nat \<Rightarrow> 'vp"
  init_viterbi :: "'vp option \<Rightarrow> nat \<Rightarrow> 'vp option"
  update_viterbi_blk :: "'vp option \<Rightarrow> u8 list option \<Rightarrow> nat \<Rightarrow> 'vp option"
  chainback_viterbi :: "'vp option \<Rightarrow> buffer \<Rightarrow> nat \<Rightarrow> nat \<Rightarrow> buffer"
  delete_viterbi :: "'vp \<Rightarrow> unit"

datatype process_exit = Exit string nat

datatype fault = AssertionFailed | NullBuffer | BufferOverrun

subsection \<open>fec\_conv\_init\_v27, \_v29, \_v39, \_v615 (lines 205 to 251)\<close>

definition install :: "'vp viterbi_ops \<Rightarrow> 'vp fec_s \<Rightarrow> 'vp fec_s" where
  "install ops q = q\<lparr>create_viterbi := vcreate ops, init_viterbi := vinit ops,
     update_viterbi_blk := vupdate_blk ops, chainback_viterbi := vchainback ops,
     delete_viterbi := vdelete ops\<rparr>"

definition fec_conv_init_v27 :: "'vp externals \<Rightarrow> 'vp fec_s \<Rightarrow> 'vp fec_s" where
  "fec_conv_init_v27 env q =
     install (viterbi27 env) (q\<lparr>R := 2, K := 7, poly := fec_conv27_poly env\<rparr>)"

definition fec_conv_init_v29 :: "'vp externals \<Rightarrow> 'vp fec_s \<Rightarrow> 'vp fec_s" where
  "fec_conv_init_v29 env q =
     install (viterbi29 env) (q\<lparr>R := 2, K := 9, poly := fec_conv29_poly env\<rparr>)"

definition fec_conv_init_v39 :: "'vp externals \<Rightarrow> 'vp fec_s \<Rightarrow> 'vp fec_s" where
  "fec_conv_init_v39 env q =
     install (viterbi39 env) (q\<lparr>R := 3, K := 9, poly := fec_conv39_poly env\<rparr>)"

definition fec_conv_init_v615 :: "'vp externals \<Rightarrow> 'vp fec_s \<Rightarrow> 'vp fec_s" where
  "fec_conv_init_v615 env q =
     install (viterbi615 env) (q\<lparr>R := 6, K := 15, poly := fec_conv615_poly env\<rparr>)"

subsection \<open>fec\_conv\_create (lines 36 to 62)\<close>

text \<open>
  \<open>raw\<close> is the content of the object as \<^verbatim>\<open>malloc\<close> returns it: every field holds an
  indeterminate value until the function assigns it. \<^verbatim>\<open>num_enc_bytes\<close> is not assigned.
  The default branch of the switch prints to stderr and calls \<^verbatim>\<open>exit(1)\<close>.
\<close>

definition fec_conv_create ::
  "'vp externals \<Rightarrow> fec_scheme \<Rightarrow> 'vp fec_s \<Rightarrow> process_exit + 'vp fec_s" where
  "fec_conv_create env fs raw =
     (let q = raw\<lparr>scheme := fs, rate := fec_get_rate env fs\<rparr> in
      case (case scheme q of
              FEC_CONV_V27 \<Rightarrow> Inr (fec_conv_init_v27 env q)
            | FEC_CONV_V29 \<Rightarrow> Inr (fec_conv_init_v29 env q)
            | FEC_CONV_V39 \<Rightarrow> Inr (fec_conv_init_v39 env q)
            | FEC_CONV_V615 \<Rightarrow> Inr (fec_conv_init_v615 env q)
            | FEC_OTHER i \<Rightarrow> Inl (Exit ''error: fec_conv_create(), invalid type'' 1)) of
        Inl e \<Rightarrow> Inl e
      | Inr q' \<Rightarrow> Inr (q'\<lparr>num_dec_bytes := 0, enc_bits := None, vp := None\<rparr>))"

subsection \<open>fec\_conv\_encode (lines 73 to 126)\<close>

text \<open>The local variables of the function that the loops update, and the output array.\<close>

record enc_regs =
  sr :: u32
  n :: nat
  byte_out :: u8
  msg_enc :: buffer

text \<open>
  One pass of the body of the loop over \<open>r\<close> (lines 97 to 99, and again 111 to 113) for
  the polynomial \<open>p\<close>.
\<close>

definition parity_step :: "u32 \<Rightarrow> enc_regs \<Rightarrow> enc_regs" where
  "parity_step p s =
     (let b = push_bit 1 (byte_out s) OR of_bool (parity (sr s AND p)) in
      s\<lparr>byte_out := b, msg_enc := (msg_enc s)(n s div 8 := b), n := wrap32 (n s + 1)\<rparr>)"

definition parity_loop :: "'vp fec_s \<Rightarrow> enc_regs \<Rightarrow> enc_regs" where
  "parity_loop q s = fold (\<lambda>r. parity_step (poly q r)) [0..<R q] s"

text \<open>The body of the loop over \<open>j\<close> (lines 92 to 100).\<close>

definition bit_step :: "'vp fec_s \<Rightarrow> u8 \<Rightarrow> nat \<Rightarrow> enc_regs \<Rightarrow> enc_regs" where
  "bit_step q byte_in j s =
     (let b = drop_bit (7 - j) byte_in AND 1 in
      parity_loop q (s\<lparr>sr := push_bit 1 (sr s) OR ucast b\<rparr>))"

text \<open>The body of the loop over \<open>i\<close> (lines 87 to 101).\<close>

definition byte_step :: "'vp fec_s \<Rightarrow> buffer \<Rightarrow> nat \<Rightarrow> enc_regs \<Rightarrow> enc_regs" where
  "byte_step q msg_dec i s = fold (bit_step q (msg_dec i)) [0..<8] s"

text \<open>The body of the loop of the tail bits (lines 107 to 114).\<close>

definition tail_step :: "'vp fec_s \<Rightarrow> enc_regs \<Rightarrow> enc_regs" where
  "tail_step q s = parity_loop q (s\<lparr>sr := push_bit 1 (sr s)\<rparr>)"

text \<open>The loop that pads to a whole byte (lines 118 to 123).\<close>

function pad_loop :: "enc_regs \<Rightarrow> enc_regs" where
  "pad_loop s =
     (if n s mod 8 \<noteq> 0
      then pad_loop (s\<lparr>byte_out := push_bit 1 (byte_out s),
                      msg_enc := (msg_enc s)(n s div 8 := push_bit 1 (byte_out s)),
                      n := wrap32 (n s + 1)\<rparr>)
      else s)"
  by pat_completeness auto
termination
proof (relation "measure (\<lambda>s. (8 - n s mod 8) mod 8)")
  show "wf (measure (\<lambda>s. (8 - n s mod 8) mod 8))"
    by simp
next
  fix s :: enc_regs
  assume a: "n s mod 8 \<noteq> 0"
  have "(n s + 1) mod 2 ^ 32 mod 8 = (n s + 1) mod 8"
    by (rule mod_mod_cancel) simp
  then have b: "wrap32 (Suc (n s)) mod 8 = Suc (n s) mod 8"
    by (simp add: wrap32_def)
  have c: "n s mod 8 < 8"
    by simp
  have "(8 - (n s + 1) mod 8) mod 8 < (8 - n s mod 8) mod 8"
  proof (cases "n s mod 8 = 7")
    case True
    then show ?thesis by (simp add: mod_Suc)
  next
    case False
    with a c have "n s mod 8 + 1 < 8" by linarith
    with a False show ?thesis by (simp add: mod_Suc)
  qed
  then show "(s\<lparr>byte_out := push_bit 1 (byte_out s),
                 msg_enc := (msg_enc s)(n s div 8 := push_bit 1 (byte_out s)),
                 n := wrap32 (n s + 1)\<rparr>, s) \<in> measure (\<lambda>s. (8 - n s mod 8) mod 8)"
    by (simp add: b)
qed

declare pad_loop.simps [simp del]

text \<open>
  The three loops in sequence, from the initial values of the locals (lines 79 to 84).
  The count of the tail loop is \<^verbatim>\<open>_q->K - 1\<close> in unsigned arithmetic.
\<close>

definition encode_loops :: "'vp fec_s \<Rightarrow> nat \<Rightarrow> buffer \<Rightarrow> buffer \<Rightarrow> enc_regs" where
  "encode_loops q dec_msg_len msg_dec out =
     (let s0 = \<lparr>sr = 0, n = 0, byte_out = 0, msg_enc = out\<rparr>;
          s1 = fold (byte_step q msg_dec) [0..<dec_msg_len] s0;
          s2 = fold (\<lambda>i. tail_step q) [0..<wrap32 (K q + (2 ^ 32 - 1))] s1
      in pad_loop s2)"

text \<open>The function: the loops, then the assertion of line 125. It returns the output array.\<close>

definition fec_conv_encode :: "'vp fec_s \<Rightarrow> nat \<Rightarrow> buffer \<Rightarrow> buffer \<Rightarrow> fault + buffer" where
  "fec_conv_encode q dec_msg_len msg_dec out =
     (let s = encode_loops q dec_msg_len msg_dec out in
      if n s = wrap32 (8 * fec_get_enc_msg_length (scheme q) dec_msg_len)
      then Inr (msg_enc s) else Inl AssertionFailed)"

subsection \<open>fec\_conv\_setlength (lines 173 to 199)\<close>

text \<open>
  \<^verbatim>\<open>realloc\<close>: the new array has the requested size and keeps the old content up to the
  smaller of the two sizes; \<open>junk\<close> is the indeterminate content of the cells beyond.
\<close>

definition realloc :: "(nat \<Rightarrow> u8) \<Rightarrow> u8 list option \<Rightarrow> nat \<Rightarrow> u8 list" where
  "realloc junk old size_new =
     (let xs = (case old of None \<Rightarrow> [] | Some ys \<Rightarrow> ys) in
      take size_new xs @ map junk [length xs..<size_new])"

definition fec_conv_setlength :: "(nat \<Rightarrow> u8) \<Rightarrow> 'vp fec_s \<Rightarrow> nat \<Rightarrow> 'vp fec_s" where
  "fec_conv_setlength junk q dec_msg_len =
     (let num_dec = dec_msg_len in
      if num_dec = num_dec_bytes q then q
      else
        let q1 = q\<lparr>num_dec_bytes := num_dec,
                   num_enc_bytes := wrap32 (fec_get_enc_msg_length (scheme q) dec_msg_len)\<rparr>;
            u = (case vp q1 of None \<Rightarrow> () | Some v \<Rightarrow> delete_viterbi q1 v);
            q2 = q1\<lparr>vp := Some (create_viterbi q1 (wrap32 (8 * num_dec_bytes q1)))\<rparr>
        in q2\<lparr>enc_bits := Some (realloc junk (enc_bits q2) (wrap32 (num_enc_bytes q2 * 8)))\<rparr>)"

subsection \<open>fec\_conv\_decode (lines 129 to 171)\<close>

text \<open>
  The call of \<^verbatim>\<open>liquid_unpack_bytes\<close> writes \<open>8 * num_enc_bytes\<close> symbols to the array
  \<open>enc_bits\<close>: through a null pointer, or past the end of the array, that is a fault.
\<close>

definition unpack_into :: "u8 list option \<Rightarrow> u8 list \<Rightarrow> fault + u8 list option" where
  "unpack_into dst syms =
     (if syms = [] then Inr dst
      else case dst of
             None \<Rightarrow> Inl NullBuffer
           | Some xs \<Rightarrow> if length xs < length syms then Inl BufferOverrun
                       else Inr (Some (syms @ drop (length syms) xs)))"

text \<open>The hard-decision scaling of one symbol (line 159).\<close>

definition scale :: "'vp externals \<Rightarrow> u8 \<Rightarrow> u8" where
  "scale env b = (if b \<noteq> 0 then FEC_SOFTBIT_1 env else FEC_SOFTBIT_0 env)"

text \<open>The loop of lines 158 and 159 over the first \<open>count\<close> cells of the array.\<close>

definition scale_loop :: "'vp externals \<Rightarrow> nat \<Rightarrow> u8 list option \<Rightarrow> fault + u8 list option" where
  "scale_loop env count dst =
     (if count = 0 then Inr dst
      else case dst of
             None \<Rightarrow> Inl NullBuffer
           | Some xs \<Rightarrow> if length xs < count then Inl BufferOverrun
                       else Inr (Some (map (scale env) (take count xs) @ drop count xs)))"

text \<open>
  The run of the decoder (lines 162 to 164). The three entry points are given the pointer
  \<^verbatim>\<open>_q->vp\<close> and, for the update, the pointer \<^verbatim>\<open>_q->enc_bits\<close>, as they are: the file
  neither tests nor dereferences them here.
\<close>

definition run_decoder :: "'vp fec_s \<Rightarrow> buffer \<Rightarrow> 'vp fec_s \<times> buffer" where
  "run_decoder q msg_dec =
     (let v1 = init_viterbi q (vp q) 0;
          v2 = update_viterbi_blk q v1 (enc_bits q)
                 (wrap32 (8 * num_dec_bytes q + K q + (2 ^ 32 - 1)));
          out = chainback_viterbi q v2 msg_dec (wrap32 (8 * num_dec_bytes q)) 0
      in (q\<lparr>vp := v2\<rparr>, out))"

definition fec_conv_decode ::
  "'vp externals \<Rightarrow> (nat \<Rightarrow> u8) \<Rightarrow> 'vp fec_s \<Rightarrow> nat \<Rightarrow> buffer \<Rightarrow> buffer \<Rightarrow>
     fault + 'vp fec_s \<times> buffer" where
  "fec_conv_decode env junk q dec_msg_len msg_enc_in msg_dec =
     (let q1 = fec_conv_setlength junk q dec_msg_len in
      case unpack_into (enc_bits q1) (liquid_unpack_bytes msg_enc_in (num_enc_bytes q1)) of
        Inl f \<Rightarrow> Inl f
      | Inr e1 \<Rightarrow>
          (case scale_loop env (wrap32 (8 * num_enc_bytes q1)) e1 of
             Inl f \<Rightarrow> Inl f
           | Inr e2 \<Rightarrow> Inr (run_decoder (q1\<lparr>enc_bits := e2\<rparr>) msg_dec)))"

section \<open>The Viterbi decoder, as the spec describes it\<close>

text \<open>
  Modelled from the spec: the decoder behind \<^verbatim>\<open>create_viterbi\<close>, \<^verbatim>\<open>init_viterbi\<close>,
  \<^verbatim>\<open>update_viterbi_blk\<close> and \<^verbatim>\<open>chainback_viterbi\<close> is an external library and is not
  in the file. The definitions of this section follow the component design of the spec
  (trellis and branch metric, reset, update, chainback) for a scheme with constraint
  length \<open>k\<close> and polynomials \<open>ps\<close>; \<open>s0\<close> and \<open>s1\<close> are the two symbol magnitudes and
  \<open>big\<close> is the large sentinel of the reset. Where the spec leaves a choice open the
  model fixes it as follows: the penalty of a symbol that differs is 1 (the metrics are
  Hamming-distance sums); every state is updated at every step, an unreachable one
  carrying the sentinel; of two incoming transitions with the same candidate metric the
  one from the predecessor whose oldest bit is 0 wins; and the chainback walks back
  through all recorded steps, of which the first \<open>nbits\<close> labels in forward order are
  packed (the labels of the flush tail are dropped). The spec calls an update or a
  chainback on a decoder that was never allocated a programming error and gives it no
  result: in the model an entry point that is handed a null pointer returns at once and
  leaves the decoder object and the output array as they are (\<open>spec_init_call\<close>,
  \<open>spec_update_call\<close>, \<open>spec_chainback_call\<close>).
\<close>

record decoder =
  metrics :: "nat list"
  survivors :: "nat list list"
  steps :: nat

definition num_states :: "nat \<Rightarrow> nat" where
  "num_states k = 2 ^ (k - 1)"

definition next_state :: "nat \<Rightarrow> nat \<Rightarrow> bool \<Rightarrow> nat" where
  "next_state k s b = (2 * s + of_bool b) mod num_states k"

definition branch_output :: "u32 list \<Rightarrow> nat \<Rightarrow> bool \<Rightarrow> bool list" where
  "branch_output ps s b = map (\<lambda>p. parity ((push_bit 1 (of_nat s) OR of_bool b) AND p)) ps"

definition softbit :: "u8 \<Rightarrow> u8 \<Rightarrow> bool \<Rightarrow> u8" where
  "softbit s0 s1 b = (if b then s1 else s0)"

definition symbol_distance :: "u8 \<Rightarrow> u8 \<Rightarrow> bool \<Rightarrow> u8 \<Rightarrow> nat" where
  "symbol_distance s0 s1 expected y = (if y = softbit s0 s1 expected then 0 else 1)"

definition branch_metric :: "u32 list \<Rightarrow> u8 \<Rightarrow> u8 \<Rightarrow> nat \<Rightarrow> bool \<Rightarrow> u8 list \<Rightarrow> nat" where
  "branch_metric ps s0 s1 s b obs =
     sum_list (map2 (symbol_distance s0 s1) (branch_output ps s b) obs)"

text \<open>
  The best of the two transitions into the state \<open>s'\<close>: its candidate metric and the
  predecessor it comes from. Both transitions carry the input bit \<open>odd s'\<close>.
\<close>

definition best_incoming ::
  "nat \<Rightarrow> u32 list \<Rightarrow> u8 \<Rightarrow> u8 \<Rightarrow> nat list \<Rightarrow> u8 list \<Rightarrow> nat \<Rightarrow> nat \<times> nat" where
  "best_incoming k ps s0 s1 pm obs s' =
     (let p0 = s' div 2;
          p1 = s' div 2 + num_states k div 2;
          c0 = pm ! p0 + branch_metric ps s0 s1 p0 (odd s') obs;
          c1 = pm ! p1 + branch_metric ps s0 s1 p1 (odd s') obs
      in if c0 \<le> c1 then (c0, p0) else (c1, p1))"

definition spec_create :: "nat \<Rightarrow> nat \<Rightarrow> decoder" where
  "spec_create k nbits =
     \<lparr>metrics = replicate (num_states k) 0,
      survivors = replicate (nbits + k - 1) (replicate (num_states k) 0),
      steps = 0\<rparr>"

definition spec_reset :: "nat \<Rightarrow> nat \<Rightarrow> decoder \<Rightarrow> nat \<Rightarrow> decoder" where
  "spec_reset k big d start =
     d\<lparr>metrics := map (\<lambda>s. if s = start then 0 else big) [0..<num_states k], steps := 0\<rparr>"

definition spec_update :: "nat \<Rightarrow> u32 list \<Rightarrow> u8 \<Rightarrow> u8 \<Rightarrow> u8 list \<Rightarrow> decoder \<Rightarrow> decoder" where
  "spec_update k ps s0 s1 obs d =
     (let best = map (best_incoming k ps s0 s1 (metrics d) obs) [0..<num_states k] in
      d\<lparr>metrics := map fst best,
        survivors := (survivors d)[steps d := map snd best],
        steps := steps d + 1\<rparr>)"

definition spec_update_blk ::
  "nat \<Rightarrow> u32 list \<Rightarrow> u8 \<Rightarrow> u8 \<Rightarrow> decoder \<Rightarrow> u8 list \<Rightarrow> nat \<Rightarrow> decoder" where
  "spec_update_blk k ps s0 s1 d syms nsteps =
     fold (\<lambda>t. spec_update k ps s0 s1 (take (length ps) (drop (length ps * t) syms)))
       [0..<nsteps] d"

text \<open>
  The walk back from state \<open>s\<close> at time step \<open>t\<close>: the labels it emits, the last input
  bit first.
\<close>

fun walk_back :: "nat list list \<Rightarrow> nat \<Rightarrow> nat \<Rightarrow> bool list" where
  "walk_back sv 0 s = []"
| "walk_back sv (Suc t) s = odd s # walk_back sv t (sv ! t ! s)"

definition pack_byte :: "bool list \<Rightarrow> u8" where
  "pack_byte bs = fold (\<lambda>b w. push_bit 1 w OR of_bool b) bs 0"

definition spec_chainback :: "decoder \<Rightarrow> buffer \<Rightarrow> nat \<Rightarrow> nat \<Rightarrow> buffer" where
  "spec_chainback d data nbits endstate =
     (let bits = take nbits (rev (walk_back (survivors d) (steps d) endstate)) in
      (\<lambda>i. if i < nbits div 8 then pack_byte (take 8 (drop (8 * i) bits)) else data i))"

definition spec_init_call :: "nat \<Rightarrow> nat \<Rightarrow> decoder option \<Rightarrow> nat \<Rightarrow> decoder option" where
  "spec_init_call k big p start =
     (case p of None \<Rightarrow> None | Some d \<Rightarrow> Some (spec_reset k big d start))"

definition spec_update_call ::
  "nat \<Rightarrow> u32 list \<Rightarrow> u8 \<Rightarrow> u8 \<Rightarrow> decoder option \<Rightarrow> u8 list option \<Rightarrow> nat \<Rightarrow> decoder option" where
  "spec_update_call k ps s0 s1 p syms nsteps =
     (case p of
        None \<Rightarrow> None
      | Some d \<Rightarrow>
          (case syms of
             None \<Rightarrow> Some d
           | Some xs \<Rightarrow> Some (spec_update_blk k ps s0 s1 d xs nsteps)))"

definition spec_chainback_call :: "decoder option \<Rightarrow> buffer \<Rightarrow> nat \<Rightarrow> nat \<Rightarrow> buffer" where
  "spec_chainback_call p data nbits endstate =
     (case p of None \<Rightarrow> data | Some d \<Rightarrow> spec_chainback d data nbits endstate)"

definition spec_viterbi :: "nat \<Rightarrow> u32 list \<Rightarrow> u8 \<Rightarrow> u8 \<Rightarrow> nat \<Rightarrow> decoder viterbi_ops" where
  "spec_viterbi k ps s0 s1 big =
     \<lparr>vcreate = spec_create k,
      vinit = spec_init_call k big,
      vupdate_blk = spec_update_call k ps s0 s1,
      vchainback = spec_chainback_call,
      vdelete = (\<lambda>d. ())\<rparr>"

text \<open>A polynomial table read through its pointer.\<close>

definition table :: "u32 list \<Rightarrow> nat \<Rightarrow> u32" where
  "table ps i = (if i < length ps then ps ! i else 0)"

text \<open>
  The surroundings of the file with the decoder of the spec in the place of the library:
  \<open>t27\<close>, \<open>t29\<close>, \<open>t39\<close> and \<open>t615\<close> are the four polynomial tables.
\<close>

definition spec_externals ::
  "u32 list \<Rightarrow> u32 list \<Rightarrow> u32 list \<Rightarrow> u32 list \<Rightarrow> u8 \<Rightarrow> u8 \<Rightarrow> nat \<Rightarrow> decoder externals" where
  "spec_externals t27 t29 t39 t615 s0 s1 big =
     \<lparr>fec_get_rate = (\<lambda>fs. case catalog fs of None \<Rightarrow> 0 | Some (r, k) \<Rightarrow> 1 / of_nat r),
      fec_conv27_poly = table t27,
      fec_conv29_poly = table t29,
      fec_conv39_poly = table t39,
      fec_conv615_poly = table t615,
      viterbi27 = spec_viterbi 7 t27 s0 s1 big,
      viterbi29 = spec_viterbi 9 t29 s0 s1 big,
      viterbi39 = spec_viterbi 9 t39 s0 s1 big,
      viterbi615 = spec_viterbi 15 t615 s0 s1 big,
      FEC_SOFTBIT_0 = s0,
      FEC_SOFTBIT_1 = s1\<rparr>"

section \<open>The encoder, as the spec describes it\<close>

text \<open>
  The processing of the encoder in the words of the spec, to be compared with the loops
  of \<open>fec_conv_encode\<close>. The register starts at zero; a bit is pushed by shifting the
  register left by one and OR-ing the bit in (\<open>spec_push\<close>); after each push one parity
  bit per polynomial is appended, in the order of the polynomials (\<open>spec_outputs\<close>,
  \<open>spec_run\<close>). The bits of the message are taken byte by byte, the most significant bit
  of a byte first (\<open>message_bits\<close>); \<open>k - 1\<close> zero bits follow them; the stream is padded
  with zero bits to a whole number of bytes (\<open>spec_encode_stream\<close>).
\<close>

definition spec_push :: "u32 \<Rightarrow> bool \<Rightarrow> u32" where
  "spec_push reg b = push_bit 1 reg OR of_bool b"

definition spec_outputs :: "u32 list \<Rightarrow> u32 \<Rightarrow> bool list" where
  "spec_outputs ps reg = map (\<lambda>p. parity (reg AND p)) ps"

definition spec_register :: "u32 \<Rightarrow> bool list \<Rightarrow> u32" where
  "spec_register reg bs = fold (\<lambda>b reg. spec_push reg b) bs reg"

fun spec_run :: "u32 list \<Rightarrow> u32 \<Rightarrow> bool list \<Rightarrow> bool list" where
  "spec_run ps reg [] = []"
| "spec_run ps reg (b # bs) =
     spec_outputs ps (spec_push reg b) @ spec_run ps (spec_push reg b) bs"

definition byte_bits :: "u8 \<Rightarrow> bool list" where
  "byte_bits w = map (\<lambda>j. bit w (7 - j)) [0..<8]"

definition message_bits :: "buffer \<Rightarrow> nat \<Rightarrow> bool list" where
  "message_bits m len = concat (map (\<lambda>i. byte_bits (m i)) [0..<len])"

definition spec_padding :: "nat \<Rightarrow> bool list" where
  "spec_padding count = replicate ((8 - count mod 8) mod 8) False"

definition spec_encode_stream :: "nat \<Rightarrow> u32 list \<Rightarrow> buffer \<Rightarrow> nat \<Rightarrow> bool list" where
  "spec_encode_stream k ps m len =
     (let s = spec_run ps 0 (message_bits m len @ replicate (k - 1) False)
      in s @ spec_padding (length s))"

section \<open>Auxiliary definitions\<close>

text \<open>
  The polynomials of a codec as a list; the three statements that emit one bit into the
  output array (lines 97 to 99, 111 to 113 and 120 to 122 of the file differ only in the
  bit they emit); the loops of the encoder over a list of input bits; and the initial
  values of the locals of \<open>fec_conv_encode\<close>.
\<close>

definition polys :: "'vp fec_s \<Rightarrow> u32 list" where
  "polys q = map (poly q) [0..<R q]"

definition put_bit :: "bool \<Rightarrow> enc_regs \<Rightarrow> enc_regs" where
  "put_bit b s =
     s\<lparr>byte_out := push_bit 1 (byte_out s) OR of_bool b,
       msg_enc := (msg_enc s)(n s div 8 := push_bit 1 (byte_out s) OR of_bool b),
       n := wrap32 (n s + 1)\<rparr>"

definition push_bits :: "'vp fec_s \<Rightarrow> bool list \<Rightarrow> enc_regs \<Rightarrow> enc_regs" where
  "push_bits q bs s = fold (\<lambda>b s. parity_loop q (s\<lparr>sr := spec_push (sr s) b\<rparr>)) bs s"

definition enc_init :: "buffer \<Rightarrow> enc_regs" where
  "enc_init out = \<lparr>sr = 0, n = 0, byte_out = 0, msg_enc = out\<rparr>"

text \<open>
  The working memory of a codec is sized when the decoder object exists and the symbol
  array has eight cells for each encoded byte; \<open>symbols\<close> is the content of the symbol
  array after the unpacking and the scaling of \<open>fec_conv_decode\<close>.
\<close>

definition sized :: "'vp fec_s \<Rightarrow> bool" where
  "sized q \<longleftrightarrow>
     (case vp q of None \<Rightarrow> False | Some v \<Rightarrow>
        (case enc_bits q of None \<Rightarrow> False | Some xs \<Rightarrow> length xs = 8 * num_enc_bytes q)) \<and>
     8 * num_enc_bytes q < 2 ^ 32"

definition symbols :: "'vp externals \<Rightarrow> buffer \<Rightarrow> nat \<Rightarrow> u8 list" where
  "symbols env msg_enc_in num_bytes = map (scale env) (liquid_unpack_bytes msg_enc_in num_bytes)"

text \<open>
  For the run of the decoder of the spec over a symbol array: the symbols of time step
  \<open>t\<close> (\<open>obs_at\<close>), the path metric table before step \<open>t\<close> (\<open>path_metrics\<close>), the
  survivor row that step \<open>t\<close> records (\<open>decisions\<close>) and the decoder object after
  \<open>count\<close> steps from a reset (\<open>trellis_after\<close>); the trellis state the encoder is in
  after a list of input bits (\<open>state_of\<close>). A polynomial table is good for a scheme when
  it has \<open>r\<close> entries, each fits in \<open>k\<close> bits, and one of them taps the newest bit;
  \<open>trellis_ok\<close> collects what the proofs need of a scheme, and a symbol array is clean
  for a list of input bits when it starts with the symbols of their encoding. A codec is
  of a scheme when its constant fields are those that \<open>fec_conv_create\<close> assigns for
  it; its decoder is ready when the working memory is sized for the configured length.
\<close>

definition obs_at :: "nat \<Rightarrow> u8 list \<Rightarrow> nat \<Rightarrow> u8 list" where
  "obs_at r syms t = take r (drop (r * t) syms)"

fun path_metrics :: "nat \<Rightarrow> u32 list \<Rightarrow> u8 \<Rightarrow> u8 \<Rightarrow> nat \<Rightarrow> u8 list \<Rightarrow> nat \<Rightarrow> nat list" where
  "path_metrics k ps s0 s1 big syms 0 = map (\<lambda>s. if s = 0 then 0 else big) [0..<num_states k]"
| "path_metrics k ps s0 s1 big syms (Suc t) =
     map (\<lambda>s'. fst (best_incoming k ps s0 s1 (path_metrics k ps s0 s1 big syms t)
                      (obs_at (length ps) syms t) s')) [0..<num_states k]"

definition decisions :: "nat \<Rightarrow> u32 list \<Rightarrow> u8 \<Rightarrow> u8 \<Rightarrow> nat \<Rightarrow> u8 list \<Rightarrow> nat \<Rightarrow> nat list" where
  "decisions k ps s0 s1 big syms t =
     map (\<lambda>s'. snd (best_incoming k ps s0 s1 (path_metrics k ps s0 s1 big syms t)
                      (obs_at (length ps) syms t) s')) [0..<num_states k]"

definition state_of :: "nat \<Rightarrow> bool list \<Rightarrow> nat" where
  "state_of k bs = fold (\<lambda>b s. next_state k s b) bs 0"

definition good_table :: "nat \<Rightarrow> nat \<Rightarrow> u32 list \<Rightarrow> bool" where
  "good_table k r ps \<longleftrightarrow>
     length ps = r \<and> list_all (\<lambda>p. take_bit k p = p) ps \<and> list_ex (\<lambda>p. bit p 0) ps"

definition trellis_ok :: "nat \<Rightarrow> u32 list \<Rightarrow> u8 \<Rightarrow> u8 \<Rightarrow> nat \<Rightarrow> bool" where
  "trellis_ok k ps s0 s1 big \<longleftrightarrow>
     2 \<le> k \<and> k \<le> 32 \<and> list_all (\<lambda>p. take_bit k p = p) ps \<and> list_ex (\<lambda>p. bit p 0) ps \<and>
     s0 \<noteq> s1 \<and> 0 < big"

definition clean :: "u32 list \<Rightarrow> u8 \<Rightarrow> u8 \<Rightarrow> u8 list \<Rightarrow> bool list \<Rightarrow> bool" where
  "clean ps s0 s1 syms bs \<longleftrightarrow>
     take (length ps * length bs) syms = map (softbit s0 s1) (spec_run ps 0 bs)"

definition scheme_poly :: "'vp externals \<Rightarrow> fec_scheme \<Rightarrow> nat \<Rightarrow> u32" where
  "scheme_poly env fs =
     (case fs of FEC_CONV_V27 \<Rightarrow> fec_conv27_poly env | FEC_CONV_V29 \<Rightarrow> fec_conv29_poly env
      | FEC_CONV_V39 \<Rightarrow> fec_conv39_poly env | FEC_CONV_V615 \<Rightarrow> fec_conv615_poly env
      | FEC_OTHER i \<Rightarrow> (\<lambda>j. 0))"

definition scheme_ops :: "'vp externals \<Rightarrow> fec_scheme \<Rightarrow> 'vp viterbi_ops" where
  "scheme_ops env fs =
     (case fs of FEC_CONV_V27 \<Rightarrow> viterbi27 env | FEC_CONV_V29 \<Rightarrow> viterbi29 env
      | FEC_CONV_V39 \<Rightarrow> viterbi39 env | FEC_CONV_V615 \<Rightarrow> viterbi615 env
      | FEC_OTHER i \<Rightarrow> viterbi27 env)"

definition codec_of :: "'vp externals \<Rightarrow> fec_scheme \<Rightarrow> 'vp fec_s \<Rightarrow> bool" where
  "codec_of env fs q \<longleftrightarrow>
     scheme q = fs \<and> catalog fs = Some (R q, K q) \<and> poly q = scheme_poly env fs \<and>
     create_viterbi q = vcreate (scheme_ops env fs) \<and>
     init_viterbi q = vinit (scheme_ops env fs) \<and>
     update_viterbi_blk q = vupdate_blk (scheme_ops env fs) \<and>
     chainback_viterbi q = vchainback (scheme_ops env fs)"

definition decoder_ready :: "decoder fec_s \<Rightarrow> bool" where
  "decoder_ready q \<longleftrightarrow>
     sized q \<and> num_enc_bytes q = fec_get_enc_msg_length (scheme q) (num_dec_bytes q) \<and>
     (case vp q of None \<Rightarrow> False
      | Some v \<Rightarrow> length (survivors v) = 8 * num_dec_bytes q + (K q - 1))"

definition trellis_after ::
  "nat \<Rightarrow> u32 list \<Rightarrow> u8 \<Rightarrow> u8 \<Rightarrow> nat \<Rightarrow> u8 list \<Rightarrow> nat \<Rightarrow> decoder" where
  "trellis_after k ps s0 s1 big syms count =
     \<lparr>metrics = path_metrics k ps s0 s1 big syms count,
      survivors = map (decisions k ps s0 s1 big syms) [0..<count],
      steps = count\<rparr>"

section \<open>Example data\<close>

text \<open>
  Concrete surroundings for the examples: the customary generator polynomials of the four
  codes, the symbol magnitudes 0 and 255, and the sentinel 1000. \<open>fresh_object g\<close> is an
  object as \<^verbatim>\<open>malloc\<close> may return it, with \<open>g\<close> in the field that \<open>fec_conv_create\<close>
  leaves unassigned.
\<close>

definition example_externals :: "decoder externals" where
  "example_externals =
     spec_externals [0x6d, 0x4f] [0x1af, 0x11d] [0x1ed, 0x19b, 0x127]
       [0x4599, 0x4ea5, 0x5d47, 0x76f3, 0x7eb7, 0x695f] 0 255 1000"

definition fresh_object :: "nat \<Rightarrow> decoder fec_s" where
  "fresh_object g =
     \<lparr>scheme = FEC_OTHER 0, rate = 0, R = 0, K = 0, poly = (\<lambda>i. 0),
      num_dec_bytes = 0, num_enc_bytes = g, enc_bits = None, vp = None,
      create_viterbi = spec_create 0, init_viterbi = spec_init_call 0 0,
      update_viterbi_blk = spec_update_call 0 [] 0 0, chainback_viterbi = spec_chainback_call,
      delete_viterbi = (\<lambda>d. ())\<rparr>"

text \<open>The codec that \<open>fec_conv_create\<close> makes for the scheme \<open>FEC_CONV_V27\<close>.\<close>

definition example_codec :: "decoder fec_s" where
  "example_codec =
     (fresh_object 5)\<lparr>scheme := FEC_CONV_V27, rate := 1 / 2, R := 2, K := 7,
        poly := table [0x6d, 0x4f],
        create_viterbi := spec_create 7, init_viterbi := spec_init_call 7 1000,
        update_viterbi_blk := spec_update_call 7 [0x6d, 0x4f] 0 255,
        chainback_viterbi := spec_chainback_call, delete_viterbi := (\<lambda>d. ()),
        num_dec_bytes := 0, enc_bits := None, vp := None\<rparr>"

section \<open>Properties\<close>

lemma wrap32_id: "x < 2 ^ 32 \<Longrightarrow> wrap32 x = x"
  by (simp add: wrap32_def)

lemma example_codec_created:
  "fec_conv_create example_externals FEC_CONV_V27 (fresh_object 5) = Inr example_codec"
  by (simp add: fec_conv_create_def fec_conv_init_v27_def install_def example_externals_def
      spec_externals_def spec_viterbi_def example_codec_def fresh_object_def)

subsection \<open>The loops of the encoder emit the stream of the spec\<close>

lemma parity_step_put: "parity_step p s = put_bit (parity (sr s AND p)) s"
  by (simp add: parity_step_def put_bit_def Let_def)

lemma sr_put_bit [simp]: "sr (put_bit b s) = sr s"
  by (simp add: put_bit_def)

lemma sr_fold_put_bit [simp]: "sr (fold put_bit bs s) = sr s"
  by (induction bs arbitrary: s) simp_all

lemma fold_parity_step:
  "fold (\<lambda>r. parity_step (poly q r)) rs s =
   fold put_bit (map (\<lambda>r. parity (sr s AND poly q r)) rs) s"
  by (induction rs arbitrary: s) (simp_all add: parity_step_put)

lemma parity_loop_put: "parity_loop q s = fold put_bit (spec_outputs (polys q) (sr s)) s"
  by (simp add: parity_loop_def fold_parity_step spec_outputs_def polys_def comp_def)

lemma put_bit_sr_update: "put_bit b (s\<lparr>sr := x\<rparr>) = (put_bit b s)\<lparr>sr := x\<rparr>"
  by (simp add: put_bit_def)

lemma fold_put_bit_sr_update: "fold put_bit bs (s\<lparr>sr := x\<rparr>) = (fold put_bit bs s)\<lparr>sr := x\<rparr>"
  by (induction bs arbitrary: s) (simp_all add: put_bit_sr_update)

lemma push_bits_stream:
  "push_bits q bs s =
   (fold put_bit (spec_run (polys q) (sr s) bs) s)\<lparr>sr := spec_register (sr s) bs\<rparr>"
proof (induction bs arbitrary: s)
  case Nil
  show ?case by (simp add: push_bits_def spec_register_def)
next
  case (Cons b bs)
  have "push_bits q (b # bs) s = push_bits q bs (parity_loop q (s\<lparr>sr := spec_push (sr s) b\<rparr>))"
    by (simp add: push_bits_def)
  also have "\<dots> = (fold put_bit (spec_run (polys q) (spec_push (sr s) b) bs)
       (fold put_bit (spec_outputs (polys q) (spec_push (sr s) b)) (s\<lparr>sr := spec_push (sr s) b\<rparr>)))
         \<lparr>sr := spec_register (spec_push (sr s) b) bs\<rparr>"
    by (simp add: Cons.IH parity_loop_put)
  also have "\<dots> = (fold put_bit (spec_run (polys q) (sr s) (b # bs)) s)\<lparr>sr := spec_register (sr s) (b # bs)\<rparr>"
    by (simp add: fold_put_bit_sr_update spec_register_def)
  finally show ?case .
qed

lemma push_bits_append: "push_bits q (as @ bs) s = push_bits q bs (push_bits q as s)"
  by (simp add: push_bits_def)

lemma and_one_of_bool: "ucast (drop_bit k (w :: u8) AND 1) = (of_bool (bit w k) :: u32)"
  by (simp add: and_one_eq mod_2_eq_odd bit_iff_odd_drop_bit of_bool_def flip: even_drop_bit_iff_not_bit)

lemma bit_step_push: "bit_step q w j s = push_bits q [bit w (7 - j)] s"
  by (simp add: bit_step_def push_bits_def spec_push_def and_one_of_bool Let_def)

lemma fold_bit_step: "fold (bit_step q w) js s = push_bits q (map (\<lambda>j. bit w (7 - j)) js) s"
  by (induction js arbitrary: s) (simp_all add: bit_step_push push_bits_def)

lemma byte_step_push: "byte_step q m i s = push_bits q (byte_bits (m i)) s"
  by (simp add: byte_step_def fold_bit_step byte_bits_def)

lemma fold_byte_step:
  "fold (byte_step q m) is s = push_bits q (concat (map (\<lambda>i. byte_bits (m i)) is)) s"
  by (induction "is" arbitrary: s) (simp_all add: byte_step_push push_bits_append, simp add: push_bits_def)

lemma tail_step_push: "tail_step q s = push_bits q [False] s"
  by (simp add: tail_step_def push_bits_def spec_push_def)

lemma fold_tail_step: "fold (\<lambda>i. tail_step q) is s = push_bits q (replicate (length is) False) s"
  by (induction "is" arbitrary: s) (simp_all add: tail_step_push push_bits_def)


lemma wrap32_mod8: "wrap32 x mod 8 = x mod 8"
proof -
  have "x mod 2 ^ 32 mod 8 = x mod 8"
    by (rule mod_mod_cancel) simp
  then show ?thesis by (simp add: wrap32_def)
qed

lemma pad_count_Suc:
  assumes "(x::nat) mod 8 \<noteq> 0"
  shows "(8 - x mod 8) mod 8 = Suc ((8 - Suc x mod 8) mod 8)"
proof -
  have c: "x mod 8 < 8" by simp
  show ?thesis
  proof (cases "x mod 8 = 7")
    case True
    then show ?thesis by (simp add: mod_Suc)
  next
    case False
    with assms c have "x mod 8 + 1 < 8" by linarith
    with assms False show ?thesis by (simp add: mod_Suc)
  qed
qed

lemma pad_loop_put: "pad_loop s = fold put_bit (spec_padding (n s)) s"
proof (induction s rule: pad_loop.induct)
  case (1 s)
  show ?case
  proof (cases "n s mod 8 = 0")
    case True
    then show ?thesis by (subst pad_loop.simps) (simp add: spec_padding_def)
  next
    case False
    let ?s' = "put_bit False s"
    have eq: "s\<lparr>byte_out := push_bit 1 (byte_out s),
                msg_enc := (msg_enc s)(n s div 8 := push_bit 1 (byte_out s)),
                n := wrap32 (n s + 1)\<rparr> = ?s'"
      by (simp add: put_bit_def)
    have step: "pad_loop s = pad_loop ?s'"
      using False by (subst pad_loop.simps) (simp add: put_bit_def)
    have ih: "pad_loop ?s' = fold put_bit (spec_padding (n ?s')) ?s'"
      using "1.IH" [OF False] by (simp only: eq)
    have "n ?s' mod 8 = Suc (n s) mod 8"
      by (simp add: put_bit_def wrap32_mod8)
    then have "spec_padding (n s) = False # spec_padding (n ?s')"
      using pad_count_Suc [OF False] by (simp add: spec_padding_def)
    with step ih show ?thesis by simp
  qed
qed

lemma spec_run_append:
  "spec_run ps reg (as @ bs) = spec_run ps reg as @ spec_run ps (spec_register reg as) bs"
  by (induction as arbitrary: reg) (simp_all add: spec_register_def)

lemma spec_register_append:
  "spec_register reg (as @ bs) = spec_register (spec_register reg as) bs"
  by (simp add: spec_register_def)

lemma length_spec_run: "length (spec_run ps reg bs) = length ps * length bs"
  by (induction bs arbitrary: reg) (simp_all add: spec_outputs_def)

lemma length_byte_bits [simp]: "length (byte_bits w) = 8"
  by (simp add: byte_bits_def)

lemma length_message_bits [simp]: "length (message_bits m len) = 8 * len"
  by (induction len) (simp_all add: message_bits_def)

lemma length_polys [simp]: "length (polys q) = R q"
  by (simp add: polys_def)

text \<open>The counter after a run of emissions.\<close>

lemma n_fold_put_bit:
  "n s + length bs < 2 ^ 32 \<Longrightarrow> n (fold put_bit bs s) = n s + length bs"
proof (induction bs arbitrary: s)
  case Nil
  show ?case by simp
next
  case (Cons b bs)
  from Cons.prems have "n (put_bit b s) = n s + 1"
    by (simp add: put_bit_def wrap32_def)
  with Cons show ?case by simp
qed

lemma n_fold_put_bit_mod8: "n (fold put_bit bs s) mod 8 = (n s + length bs) mod 8"
proof (induction bs arbitrary: s)
  case Nil
  show ?case by simp
next
  case (Cons b bs)
  have "n (put_bit b s) mod 8 = Suc (n s) mod 8"
    by (simp add: put_bit_def wrap32_mod8)
  then have "(n (put_bit b s) + length bs) mod 8 = (Suc (n s) + length bs) mod 8"
    by (metis mod_add_left_eq)
  with Cons.IH [of "put_bit b s"] show ?case by simp
qed

lemma round_up8: "(L::nat) + (8 - L mod 8) mod 8 = 8 * ((L + 7) div 8)"
proof -
  define r where "r = L mod 8"
  define q where "q = L div 8"
  have L: "L = 8 * q + r" and r: "r < 8"
    by (simp_all add: r_def q_def)
  have m: "L mod 8 = r"
    by (simp add: r_def)
  show ?thesis
  proof (cases "r = 0")
    case True
    then show ?thesis by (simp add: m) (simp add: L)
  next
    case False
    with r have a: "(8 - r) mod 8 = 8 - r"
      by simp
    from False r have "(r + 7) div 8 = 1"
      by simp
    then have b: "(8 * q + r + 7) div 8 = q + 1"
      by (simp add: add.assoc)
    show ?thesis using r by (simp add: m a) (simp add: L b)
  qed
qed

lemma byte_out_fold_put_bit:
  "byte_out (fold put_bit bs s) = fold (\<lambda>b w. push_bit 1 w OR of_bool b) bs (byte_out s)"
  by (induction bs arbitrary: s) (simp_all add: put_bit_def)

lemma pack_byte_snoc: "pack_byte (bs @ [b]) = push_bit 1 (pack_byte bs) OR of_bool b"
  by (simp add: pack_byte_def)

lemma bit_shift_or:
  "bit (push_bit 1 (w :: 8 word) OR of_bool b) j \<longleftrightarrow> (if j = 0 then b else j < 8 \<and> bit w (j - 1))"
proof -
  have "bit (push_bit 1 w OR of_bool b) j \<longleftrightarrow>
        (1 \<le> j \<and> possible_bit TYPE(8 word) j \<and> bit w (j - 1)) \<or> (b \<and> j = 0)"
    by (simp only: bit_or_iff bit_push_bit_iff bit_of_bool_iff) blast
  then show ?thesis
    by (cases "j = 0") auto
qed

lemma bit_pack_byte:
  "bit (pack_byte bs) j \<longleftrightarrow> j < 8 \<and> j < length bs \<and> bs ! (length bs - 1 - j)"
proof (induction bs arbitrary: j rule: rev_induct)
  case Nil
  show ?case by (simp add: pack_byte_def)
next
  case (snoc b bs)
  show ?case
  proof (cases j)
    case 0
    then show ?thesis
      by (simp only: pack_byte_snoc bit_shift_or) simp
  next
    case (Suc i)
    have "length bs - i = Suc (length bs - Suc i)" if "i < length bs"
      using that by simp
    then show ?thesis
      using Suc snoc.IH [of i]
      by (simp only: pack_byte_snoc bit_shift_or) (auto simp add: nth_append)
  qed
qed

text \<open>The output array after a run of emissions from the initial values of the locals.\<close>

lemma msg_enc_fold_put_bit:
  assumes "n s0 = 0" and "byte_out s0 = 0" and "length bs \<le> 2 ^ 32"
  shows "msg_enc (fold put_bit bs s0) k =
         (if 8 * k < length bs then pack_byte (take (min (8 * k + 8) (length bs)) bs)
          else msg_enc s0 k)"
  using assms(3)
proof (induction bs rule: rev_induct)
  case Nil
  show ?case by simp
next
  case (snoc b bs)
  let ?t = "fold put_bit bs s0"
  from snoc.prems have len: "length bs < 2 ^ 32"
    by simp
  then have nt: "n ?t = length bs"
    using n_fold_put_bit [of s0 bs] assms(1) by simp
  have bt: "byte_out ?t = pack_byte bs"
    by (simp add: byte_out_fold_put_bit assms(2) pack_byte_def)
  have ih: "msg_enc ?t k =
         (if 8 * k < length bs then pack_byte (take (min (8 * k + 8) (length bs)) bs)
          else msg_enc s0 k)"
    using snoc.IH len by simp
  have upd: "msg_enc (fold put_bit (bs @ [b]) s0) =
      (msg_enc ?t)(length bs div 8 := pack_byte (bs @ [b]))"
    by (simp add: put_bit_def nt bt pack_byte_snoc)
  let ?rhs = "if 8 * k < length (bs @ [b])
      then pack_byte (take (min (8 * k + 8) (length (bs @ [b]))) (bs @ [b]))
      else msg_enc s0 k"
  have main: "((msg_enc ?t)(length bs div 8 := pack_byte (bs @ [b]))) k = ?rhs"
  proof (cases "k = length bs div 8")
    case True
    have a: "8 * (length bs div 8) < length (bs @ [b])"
      by (simp add: less_Suc_eq_le)
    have "length (bs @ [b]) \<le> 8 * (length bs div 8) + 8"
      by (simp add: Suc_le_eq)
    then have c: "min (8 * (length bs div 8) + 8) (length (bs @ [b])) = length (bs @ [b])"
      by (rule min_absorb2)
    show ?thesis
      by (simp only: True fun_upd_same a c if_True take_all order_refl)
  next
    case False
    then consider "8 * k + 8 \<le> length bs" | "length bs < 8 * k"
      by linarith
    then show ?thesis
    proof cases
      case 1
      then show ?thesis
        using False by (simp add: ih min_def)
    next
      case 2
      then show ?thesis
        using False by (simp add: ih)
    qed
  qed
  show ?case
    by (simp only: upd main)
qed


lemma spec_padding_cong: "x mod 8 = y mod 8 \<Longrightarrow> spec_padding x = spec_padding y"
  by (simp add: spec_padding_def)

lemma n_sr_update [simp]: "n (s\<lparr>sr := x\<rparr>) = n s"
  by simp

lemma length_spec_encode_stream:
  "1 \<le> k \<Longrightarrow> length (spec_encode_stream k ps m len) = 8 * encoded_bytes (length ps) k len"
proof -
  assume k: "1 \<le> k"
  let ?L = "length (spec_run ps 0 (message_bits m len @ replicate (k - 1) False))"
  from k have "?L = encoded_bits (length ps) k len"
    by (simp add: length_spec_run encoded_bits_def)
  moreover have "length (spec_encode_stream k ps m len) = ?L + (8 - ?L mod 8) mod 8"
    by (simp add: spec_encode_stream_def Let_def spec_padding_def)
  ultimately show ?thesis
    by (simp only: round_up8 encoded_bytes_def)
qed


lemma encode_loops_stream:
  assumes "1 \<le> K q" and "K q \<le> 2 ^ 32"
  shows "encode_loops q len m out =
     (fold put_bit (spec_encode_stream (K q) (polys q) m len) (enc_init out))
       \<lparr>sr := spec_register 0 (message_bits m len @ replicate (K q - 1) False)\<rparr>"
proof -
  let ?s0 = "enc_init out"
  let ?bits = "message_bits m len @ replicate (K q - 1) False"
  let ?run = "spec_run (polys q) 0 ?bits"
  have w: "wrap32 (K q + (2 ^ 32 - 1)) = K q - 1"
  proof -
    from assms have "K q + (2 ^ 32 - 1) = (K q - 1) + 2 ^ 32"
      by simp
    then have "wrap32 (K q + (2 ^ 32 - 1)) = (K q - 1) mod 2 ^ 32"
      by (simp only: wrap32_def mod_add_self2)
    moreover from assms have "K q - 1 < 2 ^ 32"
      by simp
    ultimately show ?thesis
      by simp
  qed
  have s1: "fold (byte_step q m) [0..<len] ?s0 = push_bits q (message_bits m len) ?s0"
    by (simp add: fold_byte_step message_bits_def)
  have s2: "fold (\<lambda>i. tail_step q) [0..<wrap32 (K q + (2 ^ 32 - 1))]
              (push_bits q (message_bits m len) ?s0) = push_bits q ?bits ?s0"
    by (simp only: fold_tail_step length_upt diff_zero w push_bits_append)
  have s2': "push_bits q ?bits ?s0 = (fold put_bit ?run ?s0)\<lparr>sr := spec_register 0 ?bits\<rparr>"
    by (simp add: push_bits_stream enc_init_def)
  have "n (fold put_bit ?run ?s0) mod 8 = length ?run mod 8"
    using n_fold_put_bit_mod8 [of ?run ?s0] by (simp add: enc_init_def)
  then have "n ((fold put_bit ?run ?s0)\<lparr>sr := spec_register 0 ?bits\<rparr>) mod 8 = length ?run mod 8"
    by simp
  then have pad: "spec_padding (n ((fold put_bit ?run ?s0)\<lparr>sr := spec_register 0 ?bits\<rparr>)) =
      spec_padding (length ?run)"
    by (rule spec_padding_cong)
  have "encode_loops q len m out = pad_loop (push_bits q ?bits ?s0)"
    by (simp only: encode_loops_def Let_def s1 s2 enc_init_def [symmetric])
  also have "\<dots> = fold put_bit (spec_padding (length ?run))
       ((fold put_bit ?run ?s0)\<lparr>sr := spec_register 0 ?bits\<rparr>)"
    by (simp only: s2' pad_loop_put pad)
  also have "\<dots> = (fold put_bit (?run @ spec_padding (length ?run)) ?s0)
       \<lparr>sr := spec_register 0 ?bits\<rparr>"
    by (simp add: fold_put_bit_sr_update)
  finally show ?thesis
    by (simp add: spec_encode_stream_def Let_def)
qed


lemma spec_register_snoc: "spec_register reg (bs @ [b]) = spec_push (spec_register reg bs) b"
  by (simp add: spec_register_def)

lemma nth_spec_run:
  "i < length bs \<Longrightarrow> r < length ps \<Longrightarrow>
   spec_run ps reg bs ! (i * length ps + r) =
   parity (spec_register reg (take (Suc i) bs) AND ps ! r)"
proof (induction bs arbitrary: reg i)
  case Nil
  then show ?case by simp
next
  case (Cons b bs)
  have len: "length (spec_outputs ps (spec_push reg b)) = length ps"
    by (simp add: spec_outputs_def)
  show ?case
  proof (cases i)
    case 0
    with Cons.prems show ?thesis
      by (simp add: nth_append len) (simp add: spec_outputs_def spec_register_def)
  next
    case (Suc i')
    with Cons.prems have i': "i' < length bs"
      by simp
    have "spec_run ps reg (b # bs) ! (i * length ps + r) =
          spec_run ps (spec_push reg b) bs ! (i' * length ps + r)"
      by (simp add: Suc nth_append len)
    also have "\<dots> = parity (spec_register (spec_push reg b) (take (Suc i') bs) AND ps ! r)"
      using Cons.IH [OF i' Cons.prems(2)] .
    finally show ?thesis
      by (simp add: Suc spec_register_def)
  qed
qed

lemma spec_register_zeros: "spec_register reg (replicate t False) = push_bit t reg"
proof (induction t arbitrary: reg)
  case 0
  show ?case by (simp add: spec_register_def)
next
  case (Suc t)
  have "spec_register reg (replicate (Suc t) False) = spec_register (spec_push reg False) (replicate t False)"
    by (simp add: spec_register_def)
  also have "\<dots> = push_bit t (push_bit 1 reg)"
    by (simp only: Suc.IH spec_push_def of_bool_eq or.right_neutral)
  also have "\<dots> = push_bit (Suc t) reg"
    by (simp add: push_bit_add [symmetric] del: push_bit_Suc)
  finally show ?case .
qed

lemma catalog_bounds:
  "catalog fs = Some (r, k) \<Longrightarrow> 1 \<le> r \<and> r \<le> 6 \<and> 7 \<le> k \<and> k \<le> 15"
  by (cases fs) auto

lemma pack_byte_window:
  assumes "8 * k + 8 \<le> length bs"
  shows "pack_byte (take (8 * k + 8) bs) = pack_byte (take 8 (drop (8 * k) bs))"
proof (rule bit_eqI)
  fix j
  show "bit (pack_byte (take (8 * k + 8) bs)) j = bit (pack_byte (take 8 (drop (8 * k) bs))) j"
    using assms by (auto simp add: bit_pack_byte min_def add.commute)
qed


lemma encode_loops_result:
  assumes cat: "catalog (scheme q) = Some (R q, K q)"
    and fits: "8 * encoded_bytes (R q) (K q) len < 2 ^ 32"
  shows "n (encode_loops q len m out) = 8 * encoded_bytes (R q) (K q) len"
    and "msg_enc (encode_loops q len m out) k =
         (if k < encoded_bytes (R q) (K q) len
          then pack_byte (take 8 (drop (8 * k) (spec_encode_stream (K q) (polys q) m len)))
          else out k)"
    and "sr (encode_loops q len m out) =
         spec_register 0 (message_bits m len @ replicate (K q - 1) False)"
proof -
  let ?N = "encoded_bytes (R q) (K q) len"
  let ?stream = "spec_encode_stream (K q) (polys q) m len"
  from catalog_bounds [OF cat] have K: "1 \<le> K q" "K q \<le> 2 ^ 32"
    by simp_all
  have len: "length ?stream = 8 * ?N"
    using length_spec_encode_stream [OF K(1), of "polys q" m len] by simp
  note st = encode_loops_stream [OF K, of len m out]
  have i0: "n (enc_init out) = 0" "byte_out (enc_init out) = 0" "msg_enc (enc_init out) = out"
    by (simp_all add: enc_init_def)
  from fits len have "n (enc_init out) + length ?stream < 2 ^ 32"
    by (simp add: i0)
  from n_fold_put_bit [OF this] show "n (encode_loops q len m out) = 8 * ?N"
    by (simp add: st i0 len)
  from fits len have le: "length ?stream \<le> 2 ^ 32"
    by simp
  have "msg_enc (encode_loops q len m out) k =
        (if 8 * k < length ?stream
         then pack_byte (take (min (8 * k + 8) (length ?stream)) ?stream) else out k)"
    using msg_enc_fold_put_bit [OF i0(1) i0(2) le, of k] by (simp add: st i0)
  also have "\<dots> = (if k < ?N then pack_byte (take 8 (drop (8 * k) ?stream)) else out k)"
  proof (cases "k < ?N")
    case True
    then have a: "8 * k + 8 \<le> length ?stream"
      by (simp add: len)
    then have "min (8 * k + 8) (length ?stream) = 8 * k + 8"
      by simp
    with True a show ?thesis
      by (simp only: pack_byte_window [OF a] len if_True) simp
  next
    case False
    then show ?thesis
      by (simp add: len)
  qed
  finally show "msg_enc (encode_loops q len m out) k =
         (if k < ?N then pack_byte (take 8 (drop (8 * k) ?stream)) else out k)" .
  show "sr (encode_loops q len m out) =
         spec_register 0 (message_bits m len @ replicate (K q - 1) False)"
    by (simp add: st)
qed

lemma encode_returns:
  assumes cat: "catalog (scheme q) = Some (R q, K q)"
    and fits: "8 * encoded_bytes (R q) (K q) len < 2 ^ 32"
  shows "fec_conv_encode q len m out = Inr (msg_enc (encode_loops q len m out))"
proof -
  have "fec_get_enc_msg_length (scheme q) len = encoded_bytes (R q) (K q) len"
    by (simp add: fec_get_enc_msg_length_def cat)
  with fits have "wrap32 (8 * fec_get_enc_msg_length (scheme q) len) = 8 * encoded_bytes (R q) (K q) len"
    by (simp add: wrap32_def)
  with encode_loops_result(1) [OF cat fits, of m out] show ?thesis
    by (simp add: fec_conv_encode_def Let_def)
qed

lemma n_put_bit_less: "n (put_bit b s) < 2 ^ 32"
  by (simp add: put_bit_def wrap32_def)

lemma n_fold_put_bit_wrap:
  "n s < 2 ^ 32 \<Longrightarrow> n (fold put_bit bs s) = wrap32 (n s + length bs)"
proof (induction bs arbitrary: s)
  case Nil
  then show ?case
    by (simp add: wrap32_def)
next
  case (Cons b bs)
  have "n (fold put_bit bs (put_bit b s)) = wrap32 (n (put_bit b s) + length bs)"
    by (rule Cons.IH) (rule n_put_bit_less)
  also have "\<dots> = wrap32 (n s + 1 + length bs)"
    by (simp add: put_bit_def wrap32_def mod_add_left_eq)
  finally show ?case
    by simp
qed

text \<open>The counter is below \<open>2 ^ 32\<close>, so no emission writes a cell from \<open>2 ^ 29\<close> on.\<close>

lemma far_put_bit:
  assumes "n s < 2 ^ 32" and "2 ^ 29 \<le> k"
  shows "msg_enc (put_bit b s) k = msg_enc s k"
proof -
  from assms(1) have "n s div 8 < 2 ^ 29"
    by simp
  with assms(2) have "n s div 8 \<noteq> k"
    by simp
  then show ?thesis
    by (simp add: put_bit_def)
qed

lemma far_fold_put_bit:
  "n s < 2 ^ 32 \<Longrightarrow> 2 ^ 29 \<le> k \<Longrightarrow> msg_enc (fold put_bit bs s) k = msg_enc s k"
proof (induction bs arbitrary: s)
  case Nil
  show ?case
    by simp
next
  case (Cons b bs)
  have "msg_enc (fold put_bit bs (put_bit b s)) k = msg_enc (put_bit b s) k"
    by (rule Cons.IH [OF n_put_bit_less Cons.prems(2)])
  also have "\<dots> = msg_enc s k"
    by (rule far_put_bit [OF Cons.prems])
  finally show ?case
    by simp
qed

text \<open>
  Without a bound on the length: the assertion of line 125 compares two counts that wrap
  alike, so the encoder returns; and it leaves every cell from \<open>2 ^ 29\<close> on as it was.
\<close>

lemma encode_unbounded:
  assumes cat: "catalog (scheme q) = Some (R q, K q)"
  shows "fec_conv_encode q len m out = Inr (msg_enc (encode_loops q len m out))"
    and "n (encode_loops q len m out) = wrap32 (8 * encoded_bytes (R q) (K q) len)"
    and "2 ^ 29 \<le> k \<Longrightarrow> msg_enc (encode_loops q len m out) k = out k"
proof -
  let ?stream = "spec_encode_stream (K q) (polys q) m len"
  from catalog_bounds [OF cat] have K: "1 \<le> K q" "K q \<le> 2 ^ 32"
    by simp_all
  have len: "length ?stream = 8 * encoded_bytes (R q) (K q) len"
    using length_spec_encode_stream [OF K(1), of "polys q" m len] by simp
  note st = encode_loops_stream [OF K, of len m out]
  have i0: "n (enc_init out) < 2 ^ 32" "n (enc_init out) = 0" "msg_enc (enc_init out) = out"
    by (simp_all add: enc_init_def)
  show c: "n (encode_loops q len m out) = wrap32 (8 * encoded_bytes (R q) (K q) len)"
    using n_fold_put_bit_wrap [OF i0(1), of ?stream] by (simp add: st i0 len)
  have "fec_get_enc_msg_length (scheme q) len = encoded_bytes (R q) (K q) len"
    by (simp add: fec_get_enc_msg_length_def cat)
  with c show "fec_conv_encode q len m out = Inr (msg_enc (encode_loops q len m out))"
    by (simp add: fec_conv_encode_def Let_def)
  show "msg_enc (encode_loops q len m out) k = out k" if "2 ^ 29 \<le> k"
    using far_fold_put_bit [OF i0(1) that, of ?stream] by (simp add: st i0)
qed

text \<open>The message of zero bytes only: every bit of the encoded stream is zero.\<close>

lemma byte_bits_zero: "byte_bits 0 = replicate 8 False"
  by (rule nth_equalityI) (simp_all add: byte_bits_def)

lemma message_bits_zero: "message_bits (\<lambda>i. 0) len = replicate (8 * len) False"
proof (induction len)
  case 0
  show ?case
    by (simp add: message_bits_def)
next
  case (Suc len)
  have "message_bits (\<lambda>i. 0) (Suc len) = message_bits (\<lambda>i. 0) len @ byte_bits 0"
    by (simp add: message_bits_def)
  also have "\<dots> = replicate (8 * len) False @ replicate 8 False"
    by (simp only: Suc.IH byte_bits_zero)
  also have "\<dots> = replicate (8 * Suc len) False"
    by (simp add: replicate_add [symmetric])
  finally show ?case .
qed

lemma parity_zero: "\<not> parity 0"
  by (simp add: parity_def popcount_def)

lemma parity_zero_and: "\<not> parity (0 AND p)"
  by (simp add: parity_zero)

lemma spec_register_zero: "spec_register 0 (replicate t False) = 0"
  by (simp add: spec_register_zeros)

lemma spec_run_zero: "spec_run ps 0 (replicate t False) = replicate (length ps * t) False"
proof (induction t)
  case 0
  show ?case
    by simp
next
  case (Suc t)
  have p: "spec_push 0 False = 0"
    by (simp add: spec_push_def)
  have o: "spec_outputs ps 0 = replicate (length ps) False"
    by (simp add: spec_outputs_def parity_zero map_replicate_const)
  have "spec_run ps 0 (replicate (Suc t) False) =
      replicate (length ps) False @ replicate (length ps * t) False"
    by (simp add: p o Suc.IH)
  also have "\<dots> = replicate (length ps * Suc t) False"
    by (simp add: replicate_add [symmetric])
  finally show ?case .
qed

lemma stream_zero:
  assumes "1 \<le> k" and "i < 8 * encoded_bytes (length ps) k len"
  shows "spec_encode_stream k ps (\<lambda>i. 0) len ! i = False"
proof -
  let ?s = "spec_encode_stream k ps (\<lambda>i. 0) len"
  have "message_bits (\<lambda>i. 0) len @ replicate (k - 1) False = replicate (8 * len + (k - 1)) False"
    by (simp add: message_bits_zero replicate_add [symmetric])
  then have "?s = replicate (length ps * (8 * len + (k - 1))) False @
      spec_padding (length ps * (8 * len + (k - 1)))"
    by (simp add: spec_encode_stream_def Let_def spec_run_zero)
  then have r: "?s = replicate (length ?s) False"
    by (simp add: spec_padding_def replicate_add [symmetric])
  from assms have "i < length ?s"
    by (simp add: length_spec_encode_stream)
  then have "replicate (length ?s) False ! i = False"
    by (rule nth_replicate)
  with r show ?thesis
    by simp
qed

lemma bit_pack_byte8: "length bs = 8 \<Longrightarrow> j < 8 \<Longrightarrow> bit (pack_byte bs) (7 - j) = bs ! j"
proof -
  assume a: "length bs = 8" "j < 8"
  then have "7 - j < 8" "length bs - 1 - (7 - j) = j"
    by simp_all
  with a show ?thesis
    by (simp only: bit_pack_byte) simp
qed

text \<open>The bit of the output array at position \<open>i\<close> of the encoded stream.\<close>

lemma encode_bit_at:
  assumes cat: "catalog (scheme q) = Some (R q, K q)"
    and fits: "8 * encoded_bytes (R q) (K q) len < 2 ^ 32"
    and i: "i < 8 * encoded_bytes (R q) (K q) len"
  shows "bit (msg_enc (encode_loops q len m out) (i div 8)) (7 - i mod 8) =
         spec_encode_stream (K q) (polys q) m len ! i"
proof -
  let ?N = "encoded_bytes (R q) (K q) len"
  let ?stream = "spec_encode_stream (K q) (polys q) m len"
  from catalog_bounds [OF cat] have K: "1 \<le> K q"
    by simp
  have len: "length ?stream = 8 * ?N"
    using length_spec_encode_stream [OF K, of "polys q" m len] by simp
  from i have k: "i div 8 < ?N"
    by simp
  then have a: "8 * (i div 8) + 8 \<le> length ?stream"
    by (simp add: len)
  have "msg_enc (encode_loops q len m out) (i div 8) =
        pack_byte (take 8 (drop (8 * (i div 8)) ?stream))"
    using encode_loops_result(2) [OF cat fits, of m out "i div 8"] k by simp
  moreover have "length (take 8 (drop (8 * (i div 8)) ?stream)) = 8"
    using a by simp
  then have "bit (pack_byte (take 8 (drop (8 * (i div 8)) ?stream))) (7 - i mod 8) =
        take 8 (drop (8 * (i div 8)) ?stream) ! (i mod 8)"
    by (rule bit_pack_byte8) simp
  moreover have "take 8 (drop (8 * (i div 8)) ?stream) ! (i mod 8) = ?stream ! i"
    using a by simp
  ultimately show ?thesis
    by simp
qed

lemma nth_message_bits:
  "i < 8 * len \<Longrightarrow> message_bits m len ! i = bit (m (i div 8)) (7 - i mod 8)"
proof (induction len)
  case 0
  then show ?case by simp
next
  case (Suc len)
  have app: "message_bits m (Suc len) = message_bits m len @ byte_bits (m len)"
    by (simp add: message_bits_def)
  show ?case
  proof (cases "i < 8 * len")
    case True
    with Suc.IH show ?thesis
      by (simp add: app nth_append)
  next
    case False
    with Suc.prems have d: "i div 8 = len" and r: "i - 8 * len < 8"
      by simp_all
    then have md: "i mod 8 = i - 8 * len"
      by (metis False add_diff_cancel_left' le_add_diff_inverse linorder_not_less mod_less mod_mult_self4)
    from False r show ?thesis
      by (simp add: app nth_append d md byte_bits_def del: upt_Suc)
  qed
qed

lemma nth_polys: "r < R q \<Longrightarrow> polys q ! r = poly q r"
  by (simp add: polys_def)

lemma encoded_bits_le:
  "encoded_bits r k len \<le> 8 * encoded_bytes r k len"
  "8 * encoded_bytes r k len < encoded_bits r k len + 8"
  by (simp_all add: encoded_bytes_def)

text \<open>The parity bit of input step \<open>t\<close> and polynomial \<open>r\<close> in the output array.\<close>

lemma encode_step_bit:
  assumes cat: "catalog (scheme q) = Some (R q, K q)"
    and fits: "8 * encoded_bytes (R q) (K q) len < 2 ^ 32"
    and t: "t < 8 * len + (K q - 1)" and r: "r < R q"
  shows "bit (msg_enc (encode_loops q len m out) ((t * R q + r) div 8)) (7 - (t * R q + r) mod 8) =
         parity (spec_register 0 (take (Suc t) (message_bits m len @ replicate (K q - 1) False))
                 AND poly q r)"
proof -
  let ?bits = "message_bits m len @ replicate (K q - 1) False"
  let ?run = "spec_run (polys q) 0 ?bits"
  from catalog_bounds [OF cat] have K: "1 \<le> K q"
    by simp
  have lrun: "length ?run = R q * (8 * len + (K q - 1))"
    by (simp add: length_spec_run)
  have "t * R q + r < Suc t * R q"
    using r by simp
  also have "\<dots> \<le> (8 * len + (K q - 1)) * R q"
    using t by (intro mult_le_mono1) simp
  finally have "t * R q + r < R q * (8 * len + (K q - 1))"
    by (simp only: mult.commute)
  then have pos: "t * R q + r < length ?run"
    by (simp only: lrun)
  from K have "8 * len + (K q - 1) = 8 * len + K q - 1"
    by simp
  then have "length ?run = encoded_bits (R q) (K q) len"
    by (simp only: lrun encoded_bits_def)
  with pos encoded_bits_le(1) [of "R q" "K q" len]
  have i: "t * R q + r < 8 * encoded_bytes (R q) (K q) len"
    by simp
  have "bit (msg_enc (encode_loops q len m out) ((t * R q + r) div 8)) (7 - (t * R q + r) mod 8) =
        spec_encode_stream (K q) (polys q) m len ! (t * R q + r)"
    by (rule encode_bit_at [OF cat fits i])
  also have "\<dots> = ?run ! (t * R q + r)"
    using pos by (simp add: spec_encode_stream_def Let_def nth_append)
  also have "\<dots> = parity (spec_register 0 (take (Suc t) ?bits) AND polys q ! r)"
    using nth_spec_run [of t ?bits r "polys q" 0] t r by simp
  finally show ?thesis
    using r by (simp add: nth_polys)
qed

subsection \<open>The calls of the decoder\<close>

lemma length_unpack [simp]: "length (liquid_unpack_bytes e nb) = 8 * nb"
  by (simp add: liquid_unpack_bytes_def)

lemma length_symbols [simp]: "length (symbols env e nb) = 8 * nb"
  by (simp add: symbols_def)

lemma num_dec_bytes_setlength [simp]:
  "num_dec_bytes (fec_conv_setlength junk q len) = len"
  by (simp add: fec_conv_setlength_def Let_def)

lemma setlength_consts [simp]:
  "scheme (fec_conv_setlength junk q len) = scheme q"
  "R (fec_conv_setlength junk q len) = R q"
  "K (fec_conv_setlength junk q len) = K q"
  "poly (fec_conv_setlength junk q len) = poly q"
  "init_viterbi (fec_conv_setlength junk q len) = init_viterbi q"
  "update_viterbi_blk (fec_conv_setlength junk q len) = update_viterbi_blk q"
  "chainback_viterbi (fec_conv_setlength junk q len) = chainback_viterbi q"
  "create_viterbi (fec_conv_setlength junk q len) = create_viterbi q"
  "delete_viterbi (fec_conv_setlength junk q len) = delete_viterbi q"
  by (simp_all add: fec_conv_setlength_def Let_def)

lemma length_realloc [simp]: "length (realloc junk old sz) = sz"
  by (cases old) (auto simp add: realloc_def Let_def min_def)

lemma sized_setlength:
  assumes "len \<noteq> num_dec_bytes q"
    and "8 * fec_get_enc_msg_length (scheme q) len < 2 ^ 32"
  shows "sized (fec_conv_setlength junk q len)"
    and "num_enc_bytes (fec_conv_setlength junk q len) = fec_get_enc_msg_length (scheme q) len"
    and "vp (fec_conv_setlength junk q len) = Some (create_viterbi q (wrap32 (8 * len)))"
proof -
  from assms(2) have a: "wrap32 (fec_get_enc_msg_length (scheme q) len) =
      fec_get_enc_msg_length (scheme q) len"
    by (simp add: wrap32_def)
  from assms(2) have b: "wrap32 (fec_get_enc_msg_length (scheme q) len * 8) =
      8 * fec_get_enc_msg_length (scheme q) len"
    by (simp add: wrap32_def mult.commute)
  from assms show "sized (fec_conv_setlength junk q len)"
    by (simp add: sized_def fec_conv_setlength_def Let_def a b)
  from assms show "num_enc_bytes (fec_conv_setlength junk q len) = fec_get_enc_msg_length (scheme q) len"
    by (simp add: fec_conv_setlength_def Let_def a)
  from assms show "vp (fec_conv_setlength junk q len) = Some (create_viterbi q (wrap32 (8 * len)))"
    by (simp add: fec_conv_setlength_def Let_def)
qed

text \<open>A decode call on a codec whose working memory is sized when the decoder runs.\<close>

lemma decode_sized:
  assumes s: "sized (fec_conv_setlength junk q len)"
    and v: "vp (fec_conv_setlength junk q len) = Some v0"
  shows "fec_conv_decode env junk q len e d =
     (let q1 = fec_conv_setlength junk q len;
          syms = symbols env e (num_enc_bytes q1);
          v2 = update_viterbi_blk q (init_viterbi q (Some v0) 0) (Some syms)
                 (wrap32 (8 * len + K q + (2 ^ 32 - 1)))
      in Inr (q1\<lparr>enc_bits := Some syms, vp := v2\<rparr>,
              chainback_viterbi q v2 d (wrap32 (8 * len)) 0))"
proof -
  let ?q1 = "fec_conv_setlength junk q len"
  from s v obtain xs where xs: "enc_bits ?q1 = Some xs" "length xs = 8 * num_enc_bytes ?q1"
    and fit: "8 * num_enc_bytes ?q1 < 2 ^ 32"
    by (auto simp add: sized_def split: option.splits)
  let ?u = "liquid_unpack_bytes e (num_enc_bytes ?q1)"
  let ?syms = "symbols env e (num_enc_bytes ?q1)"
  have lu: "length xs = length ?u"
    by (simp add: xs)
  have u: "unpack_into (enc_bits ?q1) ?u = Inr (Some ?u)"
  proof (cases "?u = []")
    case True
    with lu have "xs = []"
      by simp
    with True show ?thesis
      by (simp add: unpack_into_def xs)
  next
    case False
    with lu show ?thesis
      by (simp add: unpack_into_def xs)
  qed
  from fit have w: "wrap32 (8 * num_enc_bytes ?q1) = 8 * num_enc_bytes ?q1"
    by (simp add: wrap32_def)
  have sc: "scale_loop env (wrap32 (8 * num_enc_bytes ?q1)) (Some ?u) = Inr (Some ?syms)"
    by (auto simp add: scale_loop_def w symbols_def liquid_unpack_bytes_def)
  have "fec_conv_decode env junk q len e d = Inr (run_decoder (?q1\<lparr>enc_bits := Some ?syms\<rparr>) d)"
    by (simp add: fec_conv_decode_def Let_def u sc)
  also have "\<dots> = Inr (?q1\<lparr>enc_bits := Some ?syms,
        vp := update_viterbi_blk q (init_viterbi q (Some v0) 0) (Some ?syms)
                (wrap32 (8 * len + K q + (2 ^ 32 - 1)))\<rparr>,
      chainback_viterbi q
        (update_viterbi_blk q (init_viterbi q (Some v0) 0) (Some ?syms)
           (wrap32 (8 * len + K q + (2 ^ 32 - 1))))
        d (wrap32 (8 * len)) 0)"
    by (simp add: run_decoder_def v Let_def)
  finally show ?thesis
    by (simp only: Let_def)
qed

text \<open>A zero-length call on a codec that was never sized.\<close>

lemma decode_unsized:
  assumes "num_dec_bytes q = 0" and "enc_bits q = None" and "num_enc_bytes q \<noteq> 0"
  shows "fec_conv_decode env junk q 0 e d = Inl NullBuffer"
  using assms
  by (simp add: fec_conv_decode_def fec_conv_setlength_def Let_def unpack_into_def
      liquid_unpack_bytes_def)

text \<open>
  A decode call that resizes the working memory for a length whose symbol count does not
  fit an \<^verbatim>\<open>unsigned int\<close>: the size that \<^verbatim>\<open>realloc\<close> is given wraps, and the unpacking
  writes past the end of the symbol array.
\<close>

lemma decode_overrun:
  assumes "len \<noteq> num_dec_bytes q"
    and "wrap32 (wrap32 (fec_get_enc_msg_length (scheme q) len) * 8) <
         8 * wrap32 (fec_get_enc_msg_length (scheme q) len)"
  shows "fec_conv_decode env junk q len e d = Inl BufferOverrun"
proof -
  let ?q1 = "fec_conv_setlength junk q len"
  let ?nb = "wrap32 (fec_get_enc_msg_length (scheme q) len)"
  let ?u = "liquid_unpack_bytes e (num_enc_bytes ?q1)"
  from assms(1) have nb: "num_enc_bytes ?q1 = ?nb"
    by (simp add: fec_conv_setlength_def Let_def)
  from assms(1) obtain xs where xs: "enc_bits ?q1 = Some xs" "length xs = wrap32 (?nb * 8)"
    by (simp add: fec_conv_setlength_def Let_def)
  have lu: "length ?u = 8 * ?nb"
    by (simp add: nb)
  with assms(2) have "0 < length ?u"
    by linarith
  then have ne: "?u \<noteq> []"
    by (rule length_greater_0_conv [THEN iffD1])
  from assms(2) xs(2) lu have "length xs < length ?u"
    by simp
  with ne have "unpack_into (enc_bits ?q1) ?u = Inl BufferOverrun"
    by (simp add: unpack_into_def xs(1))
  then show ?thesis
    by (simp add: fec_conv_decode_def Let_def)
qed

subsection \<open>Resizing the working memory\<close>

text \<open>
  Claim C7. The resize operation \<open>fec_conv_setlength\<close> is idempotent. When the requested
  decoded-message length equals the configured one it returns the codec unchanged:
  decoder object, bit buffer and both stored lengths. When the length differs it stores
  the two new lengths, creates a new Viterbi decoder for \<open>8 * dec_msg_len\<close> bits and
  reallocates the bit buffer to \<open>8 * num_enc_bytes\<close> cells. A second call with the same
  length changes nothing, whatever the allocator would hand out.
\<close>

theorem setlength_idempotent:
  "(dec_msg_len = num_dec_bytes q \<longrightarrow> fec_conv_setlength junk q dec_msg_len = q) \<and>
   (dec_msg_len \<noteq> num_dec_bytes q \<longrightarrow>
      fec_conv_setlength junk q dec_msg_len =
        q\<lparr>num_dec_bytes := dec_msg_len,
          num_enc_bytes := wrap32 (fec_get_enc_msg_length (scheme q) dec_msg_len),
          vp := Some (create_viterbi q (wrap32 (8 * dec_msg_len))),
          enc_bits := Some (realloc junk (enc_bits q)
            (wrap32 (wrap32 (fec_get_enc_msg_length (scheme q) dec_msg_len) * 8)))\<rparr>) \<and>
   fec_conv_setlength junk' (fec_conv_setlength junk q dec_msg_len) dec_msg_len =
     fec_conv_setlength junk q dec_msg_len"
  by (simp add: fec_conv_setlength_def Let_def)

theorem setlength_idempotent_witness:
  "fec_conv_setlength (\<lambda>i. 7) example_codec 0 = example_codec \<and>
   num_dec_bytes (fec_conv_setlength (\<lambda>i. 7) example_codec 2) = 2 \<and>
   vp (fec_conv_setlength (\<lambda>i. 7) example_codec 2) = Some (spec_create 7 16) \<and>
   fec_conv_setlength (\<lambda>i. 9) (fec_conv_setlength (\<lambda>i. 7) example_codec 2) 2 =
     fec_conv_setlength (\<lambda>i. 7) example_codec 2"
proof -
  have a: "num_dec_bytes example_codec = 0" "create_viterbi example_codec = spec_create 7"
    by (simp_all add: example_codec_def fresh_object_def)
  note t0 = setlength_idempotent [of 0 example_codec "\<lambda>i. 7" "\<lambda>i. 9"]
  note t2 = setlength_idempotent [of 2 example_codec "\<lambda>i. 7" "\<lambda>i. 9"]
  from t0 a have c1: "fec_conv_setlength (\<lambda>i. 7) example_codec 0 = example_codec"
    by simp
  from t2 a have c2: "num_dec_bytes (fec_conv_setlength (\<lambda>i. 7) example_codec 2) = 2"
    by simp
  from t2 a have c3: "vp (fec_conv_setlength (\<lambda>i. 7) example_codec 2) = Some (spec_create 7 16)"
    by (simp add: wrap32_def)
  from t2 have c4: "fec_conv_setlength (\<lambda>i. 9) (fec_conv_setlength (\<lambda>i. 7) example_codec 2) 2 =
     fec_conv_setlength (\<lambda>i. 7) example_codec 2"
    by blast
  from c1 c2 c3 c4 show ?thesis
    by blast
qed

subsection \<open>The encoder\<close>

lemma example_codec_fields:
  "scheme example_codec = FEC_CONV_V27" "R example_codec = 2" "K example_codec = 7"
  "poly example_codec = table [0x6d, 0x4f]" "num_dec_bytes example_codec = 0"
  "num_enc_bytes example_codec = 5" "enc_bits example_codec = None" "vp example_codec = None"
  by (simp_all add: example_codec_def fresh_object_def)

lemma example_codec_catalog:
  "catalog (scheme example_codec) = Some (R example_codec, K example_codec)"
  by (simp add: example_codec_fields)

lemma example_fits: "8 * encoded_bytes (R example_codec) (K example_codec) 1 < 2 ^ 32"
  by (simp add: example_codec_fields encoded_bytes_def encoded_bits_def)

lemma example_polys: "polys example_codec = [0x6d, 0x4f]"
  by (simp add: polys_def example_codec_fields table_def upt_rec)

lemma example_big:
  "encoded_bytes (R example_codec) (K example_codec) (2 ^ 28) = 2 ^ 29 + 2"
  "wrap32 (8 * encoded_bytes (R example_codec) (K example_codec) (2 ^ 28)) = 16"
  by (simp_all add: example_codec_fields encoded_bytes_def encoded_bits_def wrap32_def)

lemma example_overruns:
  "wrap32 (wrap32 (fec_get_enc_msg_length (scheme example_codec) (2 ^ 28)) * 8) <
     8 * wrap32 (fec_get_enc_msg_length (scheme example_codec) (2 ^ 28))"
  by (simp add: example_codec_fields fec_get_enc_msg_length_def encoded_bytes_def
      encoded_bits_def wrap32_def)

text \<open>
  Claim C2 says that the encoder writes exactly \<open>ceil (R * (8 * len + K - 1) / 8)\<close> bytes for
  every message length. It does not hold for every length: the bit counter \<^verbatim>\<open>n\<close> of the
  encoder is an \<^verbatim>\<open>unsigned int\<close> and wraps at \<open>2 ^ 32\<close>. For the scheme
  \<open>FEC_CONV_V27\<close> and a message of \<open>2 ^ 28\<close> bytes the formula gives \<open>2 ^ 29 + 2\<close>
  bytes, but the cell \<open>2 ^ 29\<close> of the output array is never written: it keeps what the
  array held before the call, 9 in one call and 7 in another. The last 16 bits of the
  stream go to the cells 0 and 1 and the counter ends at 16. The assertion of line 125
  compares two counts that wrap alike, so the function returns.
\<close>

theorem encode_length_law_counterexample:
  "\<exists>enc enc'.
     fec_conv_encode example_codec (2 ^ 28) (\<lambda>i. 0) (\<lambda>i. 9) = Inr enc \<and>
     fec_conv_encode example_codec (2 ^ 28) (\<lambda>i. 0) (\<lambda>i. 7) = Inr enc' \<and>
     encoded_bytes (R example_codec) (K example_codec) (2 ^ 28) = 2 ^ 29 + 2 \<and>
     enc (2 ^ 29) = 9 \<and> enc' (2 ^ 29) = 7 \<and>
     n (encode_loops example_codec (2 ^ 28) (\<lambda>i. 0) (\<lambda>i. 9)) = 16"
proof -
  note u = encode_unbounded [OF example_codec_catalog]
  have k: "(2::nat) ^ 29 \<le> 2 ^ 29"
    by simp
  have a: "msg_enc (encode_loops example_codec (2 ^ 28) (\<lambda>i. 0) (\<lambda>i. 9)) (2 ^ 29) = 9"
    by (simp only: u(3) [OF k])
  have b: "msg_enc (encode_loops example_codec (2 ^ 28) (\<lambda>i. 0) (\<lambda>i. 7)) (2 ^ 29) = 7"
    by (simp only: u(3) [OF k])
  have c: "n (encode_loops example_codec (2 ^ 28) (\<lambda>i. 0) (\<lambda>i. 9)) = 16"
    by (simp only: u(2) example_big(2))
  from u(1) [of "2 ^ 28" "\<lambda>i. 0" "\<lambda>i. 9"] u(1) [of "2 ^ 28" "\<lambda>i. 0" "\<lambda>i. 7"] example_big(1) a b c
  show ?thesis
    by blast
qed

text \<open>
  Claim C2, amended. For a codec of a supported scheme (its \<open>R\<close> and \<open>K\<close> are those of the
  catalog) and a message of \<open>len\<close> bytes, \<open>fec_conv_encode\<close> writes exactly
  \<open>ceil (R * (8 * len + K - 1) / 8)\<close> bytes: the assertion of line 125 holds and the
  function returns, its bit counter stands at eight times that number, every cell of the
  output array from that index on keeps its content, and every cell below it is
  overwritten (its final content does not depend on the content of the array before the
  call), for every message length whose encoded bit count
  \<open>8 * ceil (R * (8 * len + K - 1) / 8)\<close> is below \<open>2 ^ 32\<close>, the range of the bit counter.
\<close>

theorem encode_length_law:
  assumes "catalog (scheme q) = Some (R q, K q)"
    and "8 * encoded_bytes (R q) (K q) len < 2 ^ 32"
  shows "encoded_bytes (R q) (K q) len = (R q * (8 * len + K q - 1) + 7) div 8 \<and>
         n (encode_loops q len m out) = 8 * encoded_bytes (R q) (K q) len \<and>
         (\<exists>enc. fec_conv_encode q len m out = Inr enc \<and>
            (\<forall>k. encoded_bytes (R q) (K q) len \<le> k \<longrightarrow> enc k = out k) \<and>
            (\<forall>out'. \<exists>enc'. fec_conv_encode q len m out' = Inr enc' \<and>
               (\<forall>k. k < encoded_bytes (R q) (K q) len \<longrightarrow> enc' k = enc k)))"
proof -
  note ret = encode_returns [OF assms]
  note res = encode_loops_result [OF assms]
  have c1: "encoded_bytes (R q) (K q) len = (R q * (8 * len + K q - 1) + 7) div 8"
    by (simp add: encoded_bytes_def encoded_bits_def)
  have c2: "\<forall>k. encoded_bytes (R q) (K q) len \<le> k \<longrightarrow> msg_enc (encode_loops q len m out) k = out k"
    by (simp add: res(2))
  have c3: "\<forall>out'. \<exists>enc'. fec_conv_encode q len m out' = Inr enc' \<and>
      (\<forall>k. k < encoded_bytes (R q) (K q) len \<longrightarrow> enc' k = msg_enc (encode_loops q len m out) k)"
  proof
    fix out'
    have "\<forall>k. k < encoded_bytes (R q) (K q) len \<longrightarrow>
        msg_enc (encode_loops q len m out') k = msg_enc (encode_loops q len m out) k"
      by (simp add: res(2))
    with ret [of m out']
    show "\<exists>enc'. fec_conv_encode q len m out' = Inr enc' \<and>
      (\<forall>k. k < encoded_bytes (R q) (K q) len \<longrightarrow> enc' k = msg_enc (encode_loops q len m out) k)"
      by blast
  qed
  from ret [of m out] c2 c3
  have "\<exists>enc. fec_conv_encode q len m out = Inr enc \<and>
            (\<forall>k. encoded_bytes (R q) (K q) len \<le> k \<longrightarrow> enc k = out k) \<and>
            (\<forall>out'. \<exists>enc'. fec_conv_encode q len m out' = Inr enc' \<and>
               (\<forall>k. k < encoded_bytes (R q) (K q) len \<longrightarrow> enc' k = enc k))"
    by blast
  with c1 res(1) [of m out] show ?thesis
    by blast
qed

theorem encode_length_law_witness:
  "n (encode_loops example_codec 1 (\<lambda>i. 0x41) (\<lambda>i. 9)) = 32 \<and>
   (\<exists>enc. fec_conv_encode example_codec 1 (\<lambda>i. 0x41) (\<lambda>i. 9) = Inr enc \<and> enc 4 = 9 \<and>
      (\<exists>enc'. fec_conv_encode example_codec 1 (\<lambda>i. 0x41) (\<lambda>i. 0) = Inr enc' \<and> enc' 3 = enc 3))"
proof -
  have N: "encoded_bytes (R example_codec) (K example_codec) 1 = 4"
    by (simp add: example_codec_fields encoded_bytes_def encoded_bits_def)
  note t = encode_length_law [OF example_codec_catalog example_fits, of "\<lambda>i. 0x41" "\<lambda>i. 9",
      unfolded N]
  from t [THEN conjunct2, THEN conjunct1]
  have a: "n (encode_loops example_codec 1 (\<lambda>i. 0x41) (\<lambda>i. 9)) = 32"
    by simp
  from t [THEN conjunct2, THEN conjunct2]
  obtain enc where e1: "fec_conv_encode example_codec 1 (\<lambda>i. 0x41) (\<lambda>i. 9) = Inr enc"
    and e2: "\<forall>k. 4 \<le> k \<longrightarrow> enc k = 9"
    and e3: "\<forall>out'. \<exists>enc'. fec_conv_encode example_codec 1 (\<lambda>i. 0x41) out' = Inr enc' \<and>
               (\<forall>k. k < 4 \<longrightarrow> enc' k = enc k)"
    by (elim exE conjE)
  from e3 [THEN spec, of "\<lambda>i. 0"]
  obtain enc' where e4: "fec_conv_encode example_codec 1 (\<lambda>i. 0x41) (\<lambda>i. 0) = Inr enc'"
    and e5: "\<forall>k. k < 4 \<longrightarrow> enc' k = enc k"
    by (elim exE conjE)
  from e2 have "enc 4 = 9"
    by simp
  moreover from e5 have "enc' 3 = enc 3"
    by simp
  ultimately show ?thesis
    using a e1 e4 by (intro conjI exI [of _ enc] exI [of _ enc']) assumption+
qed


text \<open>
  Claim C3 says that for every input the output bit stream is input-bit-major and
  polynomial-minor. It does not hold for every input: a parity bit is written at the
  position that the bit counter \<^verbatim>\<open>n\<close> holds, an \<^verbatim>\<open>unsigned int\<close> that wraps at
  \<open>2 ^ 32\<close>. For the scheme \<open>FEC_CONV_V27\<close> and the message of \<open>2 ^ 28 + 1\<close> zero bytes,
  the parity bit of input bit \<open>2 ^ 31\<close> and polynomial 0 belongs at position \<open>2 ^ 32\<close> of
  the stream, bit 7 of the cell \<open>2 ^ 29\<close>. The parity is 0, but the bit is written to the
  cell 0 and the cell \<open>2 ^ 29\<close> keeps what the array held, here \<open>0xFF\<close>.
\<close>

theorem encode_data_bits_counterexample:
  "\<exists>enc. fec_conv_encode example_codec (2 ^ 28 + 1) (\<lambda>i. 0) (\<lambda>i. 0xFF) = Inr enc \<and>
     (2::nat) ^ 31 < 8 * (2 ^ 28 + 1) \<and> 0 < R example_codec \<and>
     bit (enc ((2 ^ 31 * R example_codec + 0) div 8)) (7 - (2 ^ 31 * R example_codec + 0) mod 8) \<and>
     \<not> parity (spec_register 0 (take (Suc (2 ^ 31)) (message_bits (\<lambda>i. 0) (2 ^ 28 + 1))) AND
          poly example_codec 0)"
proof -
  note u = encode_unbounded [OF example_codec_catalog]
  have pos: "(2 ^ 31 * R example_codec + 0) div 8 = 2 ^ 29"
    "7 - (2 ^ 31 * R example_codec + 0) mod 8 = 7"
    by (simp_all add: example_codec_fields)
  have k: "(2::nat) ^ 29 \<le> 2 ^ 29"
    by simp
  have "msg_enc (encode_loops example_codec (2 ^ 28 + 1) (\<lambda>i. 0) (\<lambda>i. 0xFF)) (2 ^ 29) = 0xFF"
    by (simp only: u(3) [OF k])
  then have a: "bit (msg_enc (encode_loops example_codec (2 ^ 28 + 1) (\<lambda>i. 0) (\<lambda>i. 0xFF))
      ((2 ^ 31 * R example_codec + 0) div 8)) (7 - (2 ^ 31 * R example_codec + 0) mod 8)"
    by (simp only: pos) simp
  have "take (Suc (2 ^ 31)) (message_bits (\<lambda>i. 0) (2 ^ 28 + 1)) =
      replicate (min (Suc (2 ^ 31)) (8 * (2 ^ 28 + 1))) False"
    by (simp only: message_bits_zero take_replicate)
  then have b: "\<not> parity (spec_register 0 (take (Suc (2 ^ 31)) (message_bits (\<lambda>i. 0) (2 ^ 28 + 1))) AND
          poly example_codec 0)"
    by (simp only: spec_register_zero parity_zero_and) simp
  have c: "(2::nat) ^ 31 < 8 * (2 ^ 28 + 1)" "0 < R example_codec"
    by (simp_all add: example_codec_fields)
  from u(1) [of "2 ^ 28 + 1" "\<lambda>i. 0" "\<lambda>i. 0xFF"] a b c show ?thesis
    by blast
qed

text \<open>
  Claim C3, amended. For a codec of a supported scheme and every message whose encoded
  bit count \<open>8 * ceil (R * (8 * len + K - 1) / 8)\<close> is below \<open>2 ^ 32\<close>, the encoder starts
  from the zero register
  and takes the bits of the message most significant bit first within each byte; input
  bit \<open>i\<close> is pushed by shifting the register left by one and OR-ing the bit in; the bit
  written at position \<open>i * R + r\<close> of the encoded stream is the parity of the register
  after that push AND-ed with polynomial \<open>r\<close>. So the stream is input-bit-major and
  polynomial-minor, with the polynomials in the order of their table.
\<close>

theorem encode_data_bits:
  assumes "catalog (scheme q) = Some (R q, K q)"
    and "8 * encoded_bytes (R q) (K q) len < 2 ^ 32"
    and "i < 8 * len" and "r < R q"
  shows "spec_register 0 [] = 0 \<and>
         message_bits m len ! i = bit (m (i div 8)) (7 - i mod 8) \<and>
         spec_register 0 (take (Suc i) (message_bits m len)) =
           push_bit 1 (spec_register 0 (take i (message_bits m len))) OR
           of_bool (message_bits m len ! i) \<and>
         (\<exists>enc. fec_conv_encode q len m out = Inr enc \<and>
            bit (enc ((i * R q + r) div 8)) (7 - (i * R q + r) mod 8) =
            parity (spec_register 0 (take (Suc i) (message_bits m len)) AND poly q r))"
proof -
  have c1: "spec_register 0 [] = 0"
    by (simp add: spec_register_def)
  have c2: "message_bits m len ! i = bit (m (i div 8)) (7 - i mod 8)"
    using assms(3) by (rule nth_message_bits)
  from assms(3) have "take (Suc i) (message_bits m len) =
      take i (message_bits m len) @ [message_bits m len ! i]"
    by (simp add: take_Suc_conv_app_nth)
  then have c3: "spec_register 0 (take (Suc i) (message_bits m len)) =
           push_bit 1 (spec_register 0 (take i (message_bits m len))) OR
           of_bool (message_bits m len ! i)"
    by (simp only: spec_register_snoc spec_push_def)
  from assms(3) have t: "i < 8 * len + (K q - 1)"
    by simp
  from assms(3) have "take (Suc i) (message_bits m len @ replicate (K q - 1) False) =
      take (Suc i) (message_bits m len)"
    by simp
  with encode_step_bit [OF assms(1,2) t assms(4), of m out]
  have "bit (msg_enc (encode_loops q len m out) ((i * R q + r) div 8)) (7 - (i * R q + r) mod 8) =
        parity (spec_register 0 (take (Suc i) (message_bits m len)) AND poly q r)"
    by simp
  with encode_returns [OF assms(1,2), of m out]
  have "\<exists>enc. fec_conv_encode q len m out = Inr enc \<and>
            bit (enc ((i * R q + r) div 8)) (7 - (i * R q + r) mod 8) =
            parity (spec_register 0 (take (Suc i) (message_bits m len)) AND poly q r)"
    by blast
  with c1 c2 c3 show ?thesis
    by blast
qed

theorem encode_data_bits_witness:
  "message_bits (\<lambda>i. 0x41) 1 ! 1 = bit (0x41 :: u8) 6 \<and>
   (\<exists>enc. fec_conv_encode example_codec 1 (\<lambda>i. 0x41) (\<lambda>i. 0) = Inr enc \<and>
      bit (enc 0) 4 = parity (spec_register 0 (take 2 (message_bits (\<lambda>i. 0x41) 1)) AND 0x4f))"
proof -
  have i: "(1::nat) < 8 * 1" and r: "1 < R example_codec"
    by (simp_all add: example_codec_fields)
  note t = encode_data_bits [OF example_codec_catalog example_fits i r, of "\<lambda>i. 0x41" "\<lambda>i. 0"]
  have p: "poly example_codec 1 = 0x4f"
    by (simp add: example_codec_fields table_def)
  have e: "(1 * R example_codec + 1) div 8 = 0" "7 - (1 * R example_codec + 1) mod 8 = 4"
    "Suc 1 = 2" "1 div 8 = (0::nat)" "7 - 1 mod 8 = (6::nat)"
    by (simp_all add: example_codec_fields)
  from t [THEN conjunct2, THEN conjunct1] t [THEN conjunct2, THEN conjunct2, THEN conjunct2]
  show ?thesis
    by (simp only: p e)
qed

text \<open>
  Claim C4 says that for every input the flush bits and the padding follow the data bits
  in the output. It does not hold for every input: for the scheme \<open>FEC_CONV_V27\<close> and
  the message of \<open>2 ^ 28\<close> zero bytes the data bits fill the positions below \<open>2 ^ 32\<close>,
  the bit counter \<^verbatim>\<open>n\<close> wraps to 0, and the flush bits and the padding are written to
  the cells 0 and 1. The first flush bit belongs at position \<open>2 ^ 32\<close>, bit 7 of the cell
  \<open>2 ^ 29\<close>, and the last padding bit at position \<open>2 ^ 32 + 15\<close>, bit 0 of the cell
  \<open>2 ^ 29 + 1\<close>: both are 0, but the two cells keep what the array held, here \<open>0xFF\<close>.
\<close>

theorem encode_tail_and_padding_counterexample:
  "\<exists>enc. fec_conv_encode example_codec (2 ^ 28) (\<lambda>i. 0) (\<lambda>i. 0xFF) = Inr enc \<and>
     0 < K example_codec - 1 \<and> 0 < R example_codec \<and>
     bit (enc (((8 * 2 ^ 28 + 0) * R example_codec + 0) div 8))
       (7 - ((8 * 2 ^ 28 + 0) * R example_codec + 0) mod 8) \<and>
     \<not> parity (push_bit (Suc 0) (spec_register 0 (message_bits (\<lambda>i. 0) (2 ^ 28))) AND
          poly example_codec 0) \<and>
     R example_codec * (8 * 2 ^ 28 + K example_codec - 1) \<le> 2 ^ 32 + 15 \<and>
     2 ^ 32 + 15 < 8 * encoded_bytes (R example_codec) (K example_codec) (2 ^ 28) \<and>
     bit (enc ((2 ^ 32 + 15) div 8)) (7 - (2 ^ 32 + 15) mod 8)"
proof -
  note u = encode_unbounded [OF example_codec_catalog]
  have pos: "((8 * 2 ^ 28 + 0) * R example_codec + 0) div 8 = 2 ^ 29"
    "7 - ((8 * 2 ^ 28 + 0) * R example_codec + 0) mod 8 = 7"
    "(2 ^ 32 + 15) div 8 = (2 ^ 29 + 1 :: nat)" "7 - (2 ^ 32 + 15) mod 8 = (0::nat)"
    by (simp_all add: example_codec_fields)
  have k: "(2::nat) ^ 29 \<le> 2 ^ 29" "(2::nat) ^ 29 \<le> 2 ^ 29 + 1"
    by simp_all
  have "msg_enc (encode_loops example_codec (2 ^ 28) (\<lambda>i. 0) (\<lambda>i. 0xFF)) (2 ^ 29) = 0xFF"
    by (simp only: u(3) [OF k(1)])
  then have a: "bit (msg_enc (encode_loops example_codec (2 ^ 28) (\<lambda>i. 0) (\<lambda>i. 0xFF))
      (((8 * 2 ^ 28 + 0) * R example_codec + 0) div 8))
      (7 - ((8 * 2 ^ 28 + 0) * R example_codec + 0) mod 8)"
    by (simp only: pos) simp
  have "msg_enc (encode_loops example_codec (2 ^ 28) (\<lambda>i. 0) (\<lambda>i. 0xFF)) (2 ^ 29 + 1) = 0xFF"
    by (simp only: u(3) [OF k(2)])
  then have b: "bit (msg_enc (encode_loops example_codec (2 ^ 28) (\<lambda>i. 0) (\<lambda>i. 0xFF))
      ((2 ^ 32 + 15) div 8)) (7 - (2 ^ 32 + 15) mod 8)"
    by (simp only: pos) simp
  have c: "\<not> parity (push_bit (Suc 0) (spec_register 0 (message_bits (\<lambda>i. 0) (2 ^ 28))) AND
          poly example_codec 0)"
    by (simp only: message_bits_zero spec_register_zero push_bit_of_0 parity_zero_and) simp
  have d: "0 < K example_codec - 1" "0 < R example_codec"
    "R example_codec * (8 * 2 ^ 28 + K example_codec - 1) \<le> 2 ^ 32 + 15"
    "2 ^ 32 + 15 < 8 * encoded_bytes (R example_codec) (K example_codec) (2 ^ 28)"
    by (simp_all add: example_codec_fields encoded_bytes_def encoded_bits_def)
  from u(1) [of "2 ^ 28" "\<lambda>i. 0" "\<lambda>i. 0xFF"] a b c d show ?thesis
    by blast
qed

text \<open>
  Claim C4, amended. For a codec of a supported scheme and every message whose encoded
  bit count \<open>8 * ceil (R * (8 * len + K - 1) / 8)\<close> is below \<open>2 ^ 32\<close>:
  after the last input bit the encoder pushes exactly \<open>K - 1\<close> zero bits: flush
  step \<open>j\<close> emits, at the positions \<open>(8 * len + j) * R + r\<close>, the parity of the register
  after \<open>j + 1\<close> zero pushes AND-ed with polynomial \<open>r\<close>. The bits from position
  \<open>R * (8 * len + K - 1)\<close> up to the end of the last byte are zero, and fewer than eight
  of them are added. After the flush the low \<open>K - 1\<close> bits of the register, the trellis
  state, are zero.
\<close>

theorem encode_tail_and_padding:
  assumes "catalog (scheme q) = Some (R q, K q)"
    and "8 * encoded_bytes (R q) (K q) len < 2 ^ 32"
  shows "(\<exists>enc. fec_conv_encode q len m out = Inr enc \<and>
           (\<forall>j r. j < K q - 1 \<and> r < R q \<longrightarrow>
              bit (enc (((8 * len + j) * R q + r) div 8)) (7 - ((8 * len + j) * R q + r) mod 8) =
              parity (push_bit (Suc j) (spec_register 0 (message_bits m len)) AND poly q r)) \<and>
           (\<forall>i. R q * (8 * len + K q - 1) \<le> i \<and> i < 8 * encoded_bytes (R q) (K q) len \<longrightarrow>
              \<not> bit (enc (i div 8)) (7 - i mod 8))) \<and>
         R q * (8 * len + K q - 1) \<le> 8 * encoded_bytes (R q) (K q) len \<and>
         8 * encoded_bytes (R q) (K q) len < R q * (8 * len + K q - 1) + 8 \<and>
         n (encode_loops q len m out) = 8 * encoded_bytes (R q) (K q) len \<and>
         sr (encode_loops q len m out) = push_bit (K q - 1) (spec_register 0 (message_bits m len)) \<and>
         take_bit (K q - 1) (sr (encode_loops q len m out)) = 0"
proof -
  let ?N = "encoded_bytes (R q) (K q) len"
  let ?bits = "message_bits m len"
  let ?enc = "msg_enc (encode_loops q len m out)"
  let ?run = "spec_run (polys q) 0 (?bits @ replicate (K q - 1) False)"
  from catalog_bounds [OF assms(1)] have K: "1 \<le> K q"
    by simp
  have tail: "bit (?enc (((8 * len + j) * R q + r) div 8)) (7 - ((8 * len + j) * R q + r) mod 8) =
              parity (push_bit (Suc j) (spec_register 0 ?bits) AND poly q r)"
    if "j < K q - 1" and "r < R q" for j r
  proof -
    from that(1) have t: "8 * len + j < 8 * len + (K q - 1)"
      by simp
    from that(1) have "take (Suc (8 * len + j)) (?bits @ replicate (K q - 1) False) =
        ?bits @ replicate (Suc j) False"
      by (simp add: min_def)
    then have "spec_register 0 (take (Suc (8 * len + j)) (?bits @ replicate (K q - 1) False)) =
        push_bit (Suc j) (spec_register 0 ?bits)"
      by (simp only: spec_register_append spec_register_zeros)
    with encode_step_bit [OF assms t that(2), of m out] show ?thesis
      by simp
  qed
  have lrun: "length ?run = R q * (8 * len + K q - 1)"
    using K by (simp add: length_spec_run)
  have stream: "spec_encode_stream (K q) (polys q) m len = ?run @ spec_padding (length ?run)"
    by (simp add: spec_encode_stream_def Let_def)
  have len: "length (spec_encode_stream (K q) (polys q) m len) = 8 * ?N"
    using length_spec_encode_stream [OF K, of "polys q" m len] by simp
  have pad: "\<not> bit (?enc (i div 8)) (7 - i mod 8)"
    if "R q * (8 * len + K q - 1) \<le> i" and "i < 8 * ?N" for i
  proof -
    have total: "length ?run + length (spec_padding (length ?run)) = 8 * ?N"
      using len by (simp only: stream length_append)
    from that(1) have ge: "length ?run \<le> i"
      by (simp only: lrun)
    from ge that(2) total have "i - length ?run < length (spec_padding (length ?run))"
      by linarith
    then have "spec_padding (length ?run) ! (i - length ?run) = False"
      by (simp add: spec_padding_def)
    with ge have "(?run @ spec_padding (length ?run)) ! i = False"
      by (simp add: nth_append)
    then have "spec_encode_stream (K q) (polys q) m len ! i = False"
      by (simp only: stream)
    with encode_bit_at [OF assms that(2), of m out] show ?thesis
      by simp
  qed
  from tail pad encode_returns [OF assms, of m out]
  have c1: "\<exists>enc. fec_conv_encode q len m out = Inr enc \<and>
           (\<forall>j r. j < K q - 1 \<and> r < R q \<longrightarrow>
              bit (enc (((8 * len + j) * R q + r) div 8)) (7 - ((8 * len + j) * R q + r) mod 8) =
              parity (push_bit (Suc j) (spec_register 0 (message_bits m len)) AND poly q r)) \<and>
           (\<forall>i. R q * (8 * len + K q - 1) \<le> i \<and> i < 8 * encoded_bytes (R q) (K q) len \<longrightarrow>
              \<not> bit (enc (i div 8)) (7 - i mod 8))"
    by blast
  have c2: "R q * (8 * len + K q - 1) \<le> 8 * ?N" "8 * ?N < R q * (8 * len + K q - 1) + 8"
    using encoded_bits_le [of "R q" "K q" len] by (simp_all add: encoded_bits_def)
  have c3: "sr (encode_loops q len m out) = push_bit (K q - 1) (spec_register 0 ?bits)"
    by (simp only: encode_loops_result(3) [OF assms] spec_register_append spec_register_zeros)
  have c4: "take_bit (K q - 1) (sr (encode_loops q len m out)) = 0"
    by (simp only: c3 take_bit_push_bit) simp
  from c1 c2 c3 c4 encode_loops_result(1) [OF assms, of m out] show ?thesis
    by blast
qed


theorem encode_tail_and_padding_witness:
  "(\<exists>enc. fec_conv_encode example_codec 1 (\<lambda>i. 0x41) (\<lambda>i. 9) = Inr enc \<and>
      bit (enc 2) 7 = parity (push_bit 1 (spec_register 0 (message_bits (\<lambda>i. 0x41) 1)) AND 0x6d) \<and>
      \<not> bit (enc 3) 0) \<and>
   n (encode_loops example_codec 1 (\<lambda>i. 0x41) (\<lambda>i. 9)) = 32 \<and>
   take_bit 6 (sr (encode_loops example_codec 1 (\<lambda>i. 0x41) (\<lambda>i. 9))) = 0"
proof -
  have N: "encoded_bytes (R example_codec) (K example_codec) 1 = 4"
    by (simp add: example_codec_fields encoded_bytes_def encoded_bits_def)
  note t = encode_tail_and_padding [OF example_codec_catalog example_fits, of "\<lambda>i. 0x41" "\<lambda>i. 9",
      unfolded N]
  from t [THEN conjunct1]
  obtain enc where e1: "fec_conv_encode example_codec 1 (\<lambda>i. 0x41) (\<lambda>i. 9) = Inr enc"
    and e2: "\<forall>j r. j < K example_codec - 1 \<and> r < R example_codec \<longrightarrow>
              bit (enc (((8 * 1 + j) * R example_codec + r) div 8))
                (7 - ((8 * 1 + j) * R example_codec + r) mod 8) =
              parity (push_bit (Suc j) (spec_register 0 (message_bits (\<lambda>i. 0x41) 1)) AND
                poly example_codec r)"
    and e3: "\<forall>i. R example_codec * (8 * 1 + K example_codec - 1) \<le> i \<and> i < 8 * 4 \<longrightarrow>
              \<not> bit (enc (i div 8)) (7 - i mod 8)"
    by (elim exE conjE)
  from e2 [THEN spec, of 0, THEN spec, of 0]
  have a: "bit (enc 2) 7 =
      parity (push_bit 1 (spec_register 0 (message_bits (\<lambda>i. 0x41) 1)) AND 0x6d)"
    by (simp add: example_codec_fields table_def)
  from e3 [THEN spec, of 31] have b: "\<not> bit (enc 3) 0"
    by (simp add: example_codec_fields)
  from t [THEN conjunct2, THEN conjunct2, THEN conjunct2, THEN conjunct1]
  have c: "n (encode_loops example_codec 1 (\<lambda>i. 0x41) (\<lambda>i. 9)) = 32"
    by simp
  from t [THEN conjunct2, THEN conjunct2, THEN conjunct2, THEN conjunct2, THEN conjunct2]
  have d: "take_bit 6 (sr (encode_loops example_codec 1 (\<lambda>i. 0x41) (\<lambda>i. 9))) = 0"
    by (simp add: example_codec_fields)
  from e1 a b c d show ?thesis
    by blast
qed

text \<open>
  Claim C10 says that for every input the \<open>i\<close>-th emitted bit occupies bit \<open>7 - i mod 8\<close>
  of output byte \<open>i div 8\<close>, and that every byte up to the encoded length is determined.
  It does not hold for every input: the position of a bit is the bit counter \<^verbatim>\<open>n\<close>, an
  \<^verbatim>\<open>unsigned int\<close>, so bit \<open>i\<close> goes to byte \<open>(i mod 2 ^ 32) div 8\<close>. For the scheme
  \<open>FEC_CONV_V27\<close> and the message of \<open>2 ^ 28\<close> zero bytes, bit \<open>2 ^ 32\<close> of the stream is
  0 and lies below the encoded length, but bit 7 of byte \<open>2 ^ 29\<close> is what the array
  held before the call, here 1: that byte is not the packing of its eight bits.
\<close>

theorem encode_packing_counterexample:
  "\<exists>enc. fec_conv_encode example_codec (2 ^ 28) (\<lambda>i. 0) (\<lambda>i. 0xFF) = Inr enc \<and>
     2 ^ 32 < 8 * encoded_bytes (R example_codec) (K example_codec) (2 ^ 28) \<and>
     \<not> spec_encode_stream (K example_codec) (polys example_codec) (\<lambda>i. 0) (2 ^ 28) ! (2 ^ 32) \<and>
     bit (enc (2 ^ 32 div 8)) (7 - 2 ^ 32 mod 8) \<and>
     enc (2 ^ 32 div 8) \<noteq>
       pack_byte (take 8 (drop (8 * (2 ^ 32 div 8))
         (spec_encode_stream (K example_codec) (polys example_codec) (\<lambda>i. 0) (2 ^ 28))))"
proof -
  note u = encode_unbounded [OF example_codec_catalog]
  let ?s = "spec_encode_stream (K example_codec) (polys example_codec) (\<lambda>i. 0) (2 ^ 28)"
  let ?enc = "msg_enc (encode_loops example_codec (2 ^ 28) (\<lambda>i. 0) (\<lambda>i. 0xFF))"
  have K: "1 \<le> K example_codec"
    by (simp add: example_codec_fields)
  have lt: "2 ^ 32 < 8 * encoded_bytes (R example_codec) (K example_codec) (2 ^ 28)"
    by (simp add: example_codec_fields encoded_bytes_def encoded_bits_def)
  then have lt': "2 ^ 32 < 8 * encoded_bytes (length (polys example_codec)) (K example_codec) (2 ^ 28)"
    by simp
  have z: "\<not> ?s ! (2 ^ 32)"
    using stream_zero [OF K lt'] by simp
  have pos: "2 ^ 32 div 8 = (2 ^ 29 :: nat)" "7 - 2 ^ 32 mod 8 = (7::nat)"
    by simp_all
  have k: "(2::nat) ^ 29 \<le> 2 ^ 29"
    by simp
  have e: "?enc (2 ^ 29) = 0xFF"
    by (simp only: u(3) [OF k])
  then have a: "bit (?enc (2 ^ 32 div 8)) (7 - 2 ^ 32 mod 8)"
    by (simp only: pos) simp
  have len: "length ?s = 8 * encoded_bytes (R example_codec) (K example_codec) (2 ^ 28)"
    using length_spec_encode_stream [OF K, of "polys example_codec" "\<lambda>i. 0" "2 ^ 28"] by simp
  have "\<not> bit (pack_byte (take 8 (drop (8 * 2 ^ 29) ?s))) 7"
  proof -
    from len example_big(1) have l8: "length (take 8 (drop (8 * 2 ^ 29) ?s)) = 8"
      by simp
    from bit_pack_byte8 [OF l8, of 0]
    have "bit (pack_byte (take 8 (drop (8 * 2 ^ 29) ?s))) 7 = take 8 (drop (8 * 2 ^ 29) ?s) ! 0"
      by simp
    also from len example_big(1) have "\<dots> = ?s ! (2 ^ 32)"
      by simp
    finally show ?thesis
      using z by simp
  qed
  with e have "?enc (2 ^ 29) \<noteq> pack_byte (take 8 (drop (8 * 2 ^ 29) ?s))"
    by auto
  then have b: "?enc (2 ^ 32 div 8) \<noteq> pack_byte (take 8 (drop (8 * (2 ^ 32 div 8)) ?s))"
    unfolding pos .
  from u(1) [of "2 ^ 28" "\<lambda>i. 0" "\<lambda>i. 0xFF"] lt z a b show ?thesis
    by blast
qed

text \<open>
  Claim C10, amended. For a codec of a supported scheme and every message whose encoded
  bit count \<open>8 * ceil (R * (8 * len + K - 1) / 8)\<close> is below \<open>2 ^ 32\<close>:
  the loops of the encoder emit the bits of the stream one after the other,
  each by the three statements of \<open>put_bit\<close>. Bit \<open>i\<close> of the stream ends up at bit
  position \<open>7 - i mod 8\<close> of output byte \<open>i div 8\<close>, and after the padding loop every
  byte below the encoded length is the packing of its eight bits, first bit most
  significant: none of them depends on earlier content of the array.
\<close>

theorem encode_packing:
  assumes "catalog (scheme q) = Some (R q, K q)"
    and "8 * encoded_bytes (R q) (K q) len < 2 ^ 32"
  shows "encode_loops q len m out =
           (fold put_bit (spec_encode_stream (K q) (polys q) m len) (enc_init out))
             \<lparr>sr := sr (encode_loops q len m out)\<rparr> \<and>
         length (spec_encode_stream (K q) (polys q) m len) = 8 * encoded_bytes (R q) (K q) len \<and>
         (\<exists>enc. fec_conv_encode q len m out = Inr enc \<and>
            (\<forall>i. i < 8 * encoded_bytes (R q) (K q) len \<longrightarrow>
               bit (enc (i div 8)) (7 - i mod 8) = spec_encode_stream (K q) (polys q) m len ! i) \<and>
            (\<forall>k. k < encoded_bytes (R q) (K q) len \<longrightarrow>
               enc k = pack_byte (take 8 (drop (8 * k) (spec_encode_stream (K q) (polys q) m len)))))"
proof -
  from catalog_bounds [OF assms(1)] have K: "1 \<le> K q" "K q \<le> 2 ^ 32"
    by simp_all
  have c1: "encode_loops q len m out =
           (fold put_bit (spec_encode_stream (K q) (polys q) m len) (enc_init out))
             \<lparr>sr := sr (encode_loops q len m out)\<rparr>"
    using encode_loops_stream [OF K, of len m out] by simp
  have c2: "length (spec_encode_stream (K q) (polys q) m len) = 8 * encoded_bytes (R q) (K q) len"
    using length_spec_encode_stream [OF K(1), of "polys q" m len] by simp
  have c3: "\<forall>i. i < 8 * encoded_bytes (R q) (K q) len \<longrightarrow>
       bit (msg_enc (encode_loops q len m out) (i div 8)) (7 - i mod 8) =
       spec_encode_stream (K q) (polys q) m len ! i"
    using encode_bit_at [OF assms, of _ m out] by blast
  have c4: "\<forall>k. k < encoded_bytes (R q) (K q) len \<longrightarrow>
       msg_enc (encode_loops q len m out) k =
       pack_byte (take 8 (drop (8 * k) (spec_encode_stream (K q) (polys q) m len)))"
    using encode_loops_result(2) [OF assms, of m out] by simp
  from encode_returns [OF assms, of m out] c3 c4
  have "\<exists>enc. fec_conv_encode q len m out = Inr enc \<and>
            (\<forall>i. i < 8 * encoded_bytes (R q) (K q) len \<longrightarrow>
               bit (enc (i div 8)) (7 - i mod 8) = spec_encode_stream (K q) (polys q) m len ! i) \<and>
            (\<forall>k. k < encoded_bytes (R q) (K q) len \<longrightarrow>
               enc k = pack_byte (take 8 (drop (8 * k) (spec_encode_stream (K q) (polys q) m len))))"
    by blast
  with c1 c2 show ?thesis
    by blast
qed

lemma example_stream_bytes:
  "pack_byte (take 8 (drop (8 * 0) (spec_encode_stream 7 [0x6d, 0x4f] (\<lambda>i. 0x41) 1))) = 0x37"
  "pack_byte (take 8 (drop (8 * 3) (spec_encode_stream 7 [0x6d, 0x4f] (\<lambda>i. 0x41) 1))) = 0xB0"
  by code_simp+

theorem encode_packing_witness:
  "\<exists>enc. fec_conv_encode example_codec 1 (\<lambda>i. 0x41) (\<lambda>i. 9) = Inr enc \<and>
     enc 0 = 0x37 \<and> enc 3 = 0xB0 \<and> bit (enc 0) 7 = False"
proof -
  have N: "encoded_bytes 2 7 1 = 4"
    by (simp add: encoded_bytes_def encoded_bits_def)
  note t = encode_packing [OF example_codec_catalog example_fits, of "\<lambda>i. 0x41" "\<lambda>i. 9",
      unfolded example_polys example_codec_fields(2,3) N]
  from t [THEN conjunct2, THEN conjunct2]
  obtain enc where e1: "fec_conv_encode example_codec 1 (\<lambda>i. 0x41) (\<lambda>i. 9) = Inr enc"
    and e2: "\<forall>k. k < 4 \<longrightarrow>
       enc k = pack_byte (take 8 (drop (8 * k) (spec_encode_stream 7 [0x6d, 0x4f] (\<lambda>i. 0x41) 1)))"
    by (elim exE conjE)
  from e2 [THEN spec, of 0] e2 [THEN spec, of 3]
  have b: "enc 0 = 0x37" "enc 3 = 0xB0"
    by (simp_all only: example_stream_bytes)
  then have "bit (enc 0) 7 = False"
    by simp
  with e1 b show ?thesis
    by blast
qed

subsection \<open>Creation and the calls of the decoder\<close>

lemma created_codec:
  assumes "fec_conv_create env fs raw = Inr q"
  shows "catalog fs = Some (R q, K q)" and "scheme q = fs" and "num_dec_bytes q = 0"
    and "enc_bits q = None" and "vp q = None" and "num_enc_bytes q = num_enc_bytes raw"
  using assms
  by (cases fs; simp add: fec_conv_create_def fec_conv_init_v27_def fec_conv_init_v29_def
      fec_conv_init_v39_def fec_conv_init_v615_def install_def; fastforce)+

lemma create_invalid: "catalog fs = None \<Longrightarrow>
  fec_conv_create env fs raw = Inl (Exit ''error: fec_conv_create(), invalid type'' 1)"
  by (cases fs) (simp_all add: fec_conv_create_def)

lemma create_valid: "catalog fs \<noteq> None \<Longrightarrow> \<exists>q. fec_conv_create env fs raw = Inr q"
  by (cases fs) (simp_all add: fec_conv_create_def)

lemma decode_returns:
  assumes "len \<noteq> num_dec_bytes q"
    and "8 * fec_get_enc_msg_length (scheme q) len < 2 ^ 32"
  shows "\<exists>q' out. fec_conv_decode env junk q len e d = Inr (q', out)"
proof -
  note s = sized_setlength [OF assms, of junk]
  from decode_sized [OF s(1) s(3)] show ?thesis
    by (simp add: Let_def)
qed

text \<open>
  Claim C8 says that creation with an invalid scheme id returns an error to the caller
  without ending the process. It does not hold: for a scheme id outside the four of the
  switch, \<open>fec_conv_create\<close> prints its message and calls \<^verbatim>\<open>exit(1)\<close>; the call does not
  return.
\<close>

theorem create_invalid_counterexample:
  "fec_conv_create example_externals (FEC_OTHER 0) (fresh_object 5) =
     Inl (Exit ''error: fec_conv_create(), invalid type'' 1)"
  by (simp add: fec_conv_create_def)

text \<open>
  Claim C8, amended. For every scheme id outside the four supported ones
  \<open>fec_conv_create\<close> prints \<^verbatim>\<open>error: fec_conv_create(), invalid type\<close> and ends the
  process with exit status 1; nothing is returned to the caller. For each of the four
  supported schemes it returns a codec of that scheme. \<open>fec_conv_encode\<close> and
  \<open>fec_conv_decode\<close> do not look at the scheme id again: on a created codec the encoder
  returns for every message, and the decoder returns for every length of at least one
  byte (for lengths whose encoded bit count fits an \<^verbatim>\<open>unsigned int\<close>).
\<close>

theorem create_outcome:
  "(catalog fs = None \<longrightarrow>
      fec_conv_create env fs raw = Inl (Exit ''error: fec_conv_create(), invalid type'' 1)) \<and>
   (catalog fs \<noteq> None \<longrightarrow>
      (\<exists>q. fec_conv_create env fs raw = Inr q \<and> scheme q = fs \<and> catalog fs = Some (R q, K q))) \<and>
   (\<forall>q. fec_conv_create env fs raw = Inr q \<longrightarrow>
      (\<forall>len m out. 8 * encoded_bytes (R q) (K q) len < 2 ^ 32 \<longrightarrow>
         (\<exists>enc. fec_conv_encode q len m out = Inr enc)) \<and>
      (\<forall>junk len e d. 0 < len \<and> 8 * encoded_bytes (R q) (K q) len < 2 ^ 32 \<longrightarrow>
         (\<exists>q' out. fec_conv_decode env junk q len e d = Inr (q', out))))"
proof -
  have c2: "\<exists>q. fec_conv_create env fs raw = Inr q \<and> scheme q = fs \<and> catalog fs = Some (R q, K q)"
    if "catalog fs \<noteq> None"
    using create_valid [OF that, of env raw] created_codec(1,2) by blast
  have c3: "\<exists>enc. fec_conv_encode q len m out = Inr enc"
    if "fec_conv_create env fs raw = Inr q" and "8 * encoded_bytes (R q) (K q) len < 2 ^ 32"
    for q len m out
  proof -
    from created_codec(1,2) [OF that(1)] have "catalog (scheme q) = Some (R q, K q)"
      by simp
    from encode_returns [OF this that(2)] show ?thesis
      by blast
  qed
  have c4: "\<exists>q' out. fec_conv_decode env junk q len e d = Inr (q', out)"
    if "fec_conv_create env fs raw = Inr q" and "0 < len"
      and "8 * encoded_bytes (R q) (K q) len < 2 ^ 32"
    for q junk len e d
  proof -
    from created_codec(1,2) [OF that(1)]
    have "fec_get_enc_msg_length (scheme q) len = encoded_bytes (R q) (K q) len"
      by (simp add: fec_get_enc_msg_length_def)
    with that(3) have "8 * fec_get_enc_msg_length (scheme q) len < 2 ^ 32"
      by simp
    moreover from that(2) created_codec(3) [OF that(1)] have "len \<noteq> num_dec_bytes q"
      by simp
    ultimately show ?thesis
      by (rule decode_returns [rotated])
  qed
  from create_invalid [of fs env raw] c2 c3 c4 show ?thesis
    by blast
qed

theorem create_outcome_witness:
  "fec_conv_create example_externals (FEC_OTHER 3) (fresh_object 5) =
     Inl (Exit ''error: fec_conv_create(), invalid type'' 1) \<and>
   (\<exists>q. fec_conv_create example_externals FEC_CONV_V39 (fresh_object 5) = Inr q \<and>
      scheme q = FEC_CONV_V39 \<and> R q = 3 \<and> K q = 9) \<and>
   (\<exists>enc. fec_conv_encode example_codec 1 (\<lambda>i. 0x41) (\<lambda>i. 0) = Inr enc) \<and>
   (\<exists>q' out. fec_conv_decode example_externals (\<lambda>i. 0) example_codec 1 (\<lambda>i. 0) (\<lambda>i. 0) =
      Inr (q', out))"
proof -
  note a = create_outcome [of "FEC_OTHER 3" example_externals "fresh_object 5"]
  note b = create_outcome [of FEC_CONV_V39 example_externals "fresh_object 5"]
  note c = create_outcome [of FEC_CONV_V27 example_externals "fresh_object 5"]
  from a have c1: "fec_conv_create example_externals (FEC_OTHER 3) (fresh_object 5) =
     Inl (Exit ''error: fec_conv_create(), invalid type'' 1)"
    by simp
  from b have c2: "\<exists>q. fec_conv_create example_externals FEC_CONV_V39 (fresh_object 5) = Inr q \<and>
      scheme q = FEC_CONV_V39 \<and> R q = 3 \<and> K q = 9"
    by simp
  from c example_codec_created example_fits
  have c3: "\<exists>enc. fec_conv_encode example_codec 1 (\<lambda>i. 0x41) (\<lambda>i. 0) = Inr enc"
    by blast
  from c example_codec_created example_fits
  have c4: "\<exists>q' out. fec_conv_decode example_externals (\<lambda>i. 0) example_codec 1 (\<lambda>i. 0) (\<lambda>i. 0) =
      Inr (q', out)"
    by (metis zero_less_one)
  from c1 c2 c3 c4 show ?thesis
    by blast
qed


lemma wrap32_pred:
  assumes "1 \<le> x" and "x \<le> 2 ^ 32"
  shows "wrap32 (x + (2 ^ 32 - 1)) = x - 1"
proof -
  from assms have "x + (2 ^ 32 - 1) = (x - 1) + 2 ^ 32"
    by simp
  then have "wrap32 (x + (2 ^ 32 - 1)) = (x - 1) mod 2 ^ 32"
    by (simp only: wrap32_def mod_add_self2)
  moreover from assms have "x - 1 < 2 ^ 32"
    by simp
  ultimately show ?thesis
    by simp
qed

lemma scale_unpacked:
  "scale env (drop_bit k (w :: u8) AND 1) = (if bit w k then FEC_SOFTBIT_1 env else FEC_SOFTBIT_0 env)"
proof -
  have "drop_bit k w AND 1 = of_bool (bit w k)"
    by (simp add: and_one_eq mod_2_eq_odd bit_iff_odd_drop_bit)
  then show ?thesis
    by (simp add: scale_def)
qed

lemma nth_symbols:
  "i < 8 * nb \<Longrightarrow> symbols env e nb ! i =
     (if bit (e (i div 8)) (7 - i mod 8) then FEC_SOFTBIT_1 env else FEC_SOFTBIT_0 env)"
  by (simp add: symbols_def liquid_unpack_bytes_def scale_unpacked del: upt_Suc)

lemma decode_calls:
  assumes "sized (fec_conv_setlength junk q len)"
    and "vp (fec_conv_setlength junk q len) = Some v0"
    and "1 \<le> K q" and "8 * len + K q \<le> 2 ^ 32"
  shows "(\<forall>i. i < 8 * num_enc_bytes (fec_conv_setlength junk q len) \<longrightarrow>
            symbols env e (num_enc_bytes (fec_conv_setlength junk q len)) ! i =
            (if bit (e (i div 8)) (7 - i mod 8) then FEC_SOFTBIT_1 env else FEC_SOFTBIT_0 env)) \<and>
         length (symbols env e (num_enc_bytes (fec_conv_setlength junk q len))) =
           8 * num_enc_bytes (fec_conv_setlength junk q len) \<and>
         fec_conv_decode env junk q len e d =
           (let q1 = fec_conv_setlength junk q len;
                syms = symbols env e (num_enc_bytes q1);
                v1 = init_viterbi q (Some v0) 0;
                v2 = update_viterbi_blk q v1 (Some syms) (8 * len + K q - 1);
                out = chainback_viterbi q v2 d (8 * len) 0
            in Inr (q1\<lparr>enc_bits := Some syms, vp := v2\<rparr>, out))"
proof -
  from assms(3,4) have "1 \<le> 8 * len + K q"
    by simp
  from wrap32_pred [OF this assms(4)]
  have w1: "wrap32 (8 * len + K q + (2 ^ 32 - 1)) = 8 * len + K q - 1" .
  from assms(3,4) have "8 * len < 2 ^ 32"
    by simp
  then have w2: "wrap32 (8 * len) = 8 * len"
    by (simp add: wrap32_def)
  have "fec_conv_decode env junk q len e d =
           (let q1 = fec_conv_setlength junk q len;
                syms = symbols env e (num_enc_bytes q1);
                v1 = init_viterbi q (Some v0) 0;
                v2 = update_viterbi_blk q v1 (Some syms) (8 * len + K q - 1);
                out = chainback_viterbi q v2 d (8 * len) 0
            in Inr (q1\<lparr>enc_bits := Some syms, vp := v2\<rparr>, out))"
    using decode_sized [OF assms(1,2), of env e d] by (simp only: Let_def w1 w2)
  then show ?thesis
    by (simp add: nth_symbols)
qed

text \<open>
  Claim C5 says that every decode call unpacks the encoded bytes and runs the reset, the
  update and the chainback. It does not hold for every call. The counts of the file are
  \<^verbatim>\<open>unsigned int\<close>: for the scheme \<open>FEC_CONV_V27\<close> and the decoded length \<open>2 ^ 28\<close> the
  symbol count \<open>8 * (2 ^ 29 + 2)\<close> does not fit, the size that \<open>fec_conv_setlength\<close> gives
  to \<^verbatim>\<open>realloc\<close> wraps to 16, and the unpacking runs past the end of the symbol array.
  And the zero-length call on a new codec finds the working memory unallocated and
  unpacks through a null pointer (the subject of claim C6).
\<close>

theorem decode_sequence_counterexample:
  "fec_conv_decode example_externals (\<lambda>i. 0) example_codec 0 (\<lambda>i. 0x37) (\<lambda>i. 9) = Inl NullBuffer \<and>
   fec_conv_decode example_externals (\<lambda>i. 0) example_codec (2 ^ 28) (\<lambda>i. 0x37) (\<lambda>i. 9) =
     Inl BufferOverrun"
proof -
  have ne: "(2::nat) ^ 28 \<noteq> num_dec_bytes example_codec"
    by (simp add: example_codec_fields)
  from decode_overrun [OF ne example_overruns] show ?thesis
    by (simp add: decode_unsized example_codec_fields)
qed

text \<open>
  Claim C5, amended. A call of \<open>fec_conv_decode\<close> with decoded length \<open>len\<close>, on a codec
  whose working memory is sized when the decoder runs (the call has resized it, or an
  earlier call has: the decoder object exists and the symbol array has
  \<open>8 * num_enc_bytes\<close> cells, a count below \<open>2 ^ 32\<close>) and with \<open>8 * len + K\<close> at most
  \<open>2 ^ 32\<close>, unpacks the encoded bytes into one symbol per bit, each symbol one of the
  two magnitudes \<^verbatim>\<open>FEC_SOFTBIT_0\<close> and \<^verbatim>\<open>FEC_SOFTBIT_1\<close>; it then resets the decoder
  with initial state 0, updates it over exactly \<open>8 * len + K - 1\<close> symbol groups and
  chains back \<open>8 * len\<close> bits from terminal state 0, in that order: each step takes the
  decoder object the step before it returned. Nothing is said here of the zero-length
  call on a new codec.
\<close>

theorem decode_sequence:
  assumes "sized (fec_conv_setlength junk q len)"
    and "vp (fec_conv_setlength junk q len) = Some v0"
    and "1 \<le> K q" and "8 * len + K q \<le> 2 ^ 32"
  shows "(\<forall>i. i < 8 * num_enc_bytes (fec_conv_setlength junk q len) \<longrightarrow>
            symbols env e (num_enc_bytes (fec_conv_setlength junk q len)) ! i =
            (if bit (e (i div 8)) (7 - i mod 8) then FEC_SOFTBIT_1 env else FEC_SOFTBIT_0 env)) \<and>
         length (symbols env e (num_enc_bytes (fec_conv_setlength junk q len))) =
           8 * num_enc_bytes (fec_conv_setlength junk q len) \<and>
         fec_conv_decode env junk q len e d =
           (let q1 = fec_conv_setlength junk q len;
                syms = symbols env e (num_enc_bytes q1);
                v1 = init_viterbi q (Some v0) 0;
                v2 = update_viterbi_blk q v1 (Some syms) (8 * len + K q - 1);
                out = chainback_viterbi q v2 d (8 * len) 0
            in Inr (q1\<lparr>enc_bits := Some syms, vp := v2\<rparr>, out))"
  using assms by (rule decode_calls)

theorem decode_sequence_witness:
  "fec_conv_decode example_externals (\<lambda>i. 7) example_codec 1 (\<lambda>i. 0x37) (\<lambda>i. 0) =
     (let q1 = fec_conv_setlength (\<lambda>i. 7) example_codec 1;
          syms = symbols example_externals (\<lambda>i. 0x37) (num_enc_bytes q1);
          v1 = spec_reset 7 1000 (spec_create 7 8) 0;
          v2 = spec_update_blk 7 [0x6d, 0x4f] 0 255 v1 syms 14;
          out = spec_chainback v2 (\<lambda>i. 0) 8 0
      in Inr (q1\<lparr>enc_bits := Some syms, vp := Some v2\<rparr>, out)) \<and>
   symbols example_externals (\<lambda>i. 0x37) 4 ! 2 = 255"
proof -
  have ne: "(1::nat) \<noteq> num_dec_bytes example_codec"
    by (simp add: example_codec_fields)
  have fit: "8 * fec_get_enc_msg_length (scheme example_codec) 1 < 2 ^ 32"
    by (simp add: example_codec_fields fec_get_enc_msg_length_def encoded_bytes_def encoded_bits_def)
  note s = sized_setlength [OF ne fit, of "\<lambda>i. 7"]
  have v: "vp (fec_conv_setlength (\<lambda>i. 7) example_codec 1) = Some (spec_create 7 8)"
    using s(3) by (simp add: example_codec_def wrap32_def)
  have k: "1 \<le> K example_codec" "8 * 1 + K example_codec \<le> 2 ^ 32"
    by (simp_all add: example_codec_fields)
  note t = decode_sequence [OF s(1) v k, of example_externals "\<lambda>i. 0x37" "\<lambda>i. 0"]
  have neb: "num_enc_bytes (fec_conv_setlength (\<lambda>i. 7) example_codec 1) = 4"
    using s(2) by (simp add: example_codec_fields fec_get_enc_msg_length_def encoded_bytes_def
        encoded_bits_def)
  have ops: "init_viterbi example_codec = spec_init_call 7 1000"
    "update_viterbi_blk example_codec = spec_update_call 7 [0x6d, 0x4f] 0 255"
    "chainback_viterbi example_codec = spec_chainback_call" "K example_codec = 7"
    by (simp_all add: example_codec_def)
  have soft: "FEC_SOFTBIT_0 example_externals = 0" "FEC_SOFTBIT_1 example_externals = 255"
    by (simp_all add: example_externals_def spec_externals_def)
  from t [unfolded neb, THEN conjunct1, THEN spec, of 2]
  have c1: "symbols example_externals (\<lambda>i. 0x37) 4 ! 2 = 255"
    by (simp add: soft)
  from t [THEN conjunct2, THEN conjunct2] have c2: "fec_conv_decode example_externals (\<lambda>i. 7) example_codec 1 (\<lambda>i. 0x37) (\<lambda>i. 0) =
     (let q1 = fec_conv_setlength (\<lambda>i. 7) example_codec 1;
          syms = symbols example_externals (\<lambda>i. 0x37) (num_enc_bytes q1);
          v1 = spec_reset 7 1000 (spec_create 7 8) 0;
          v2 = spec_update_blk 7 [0x6d, 0x4f] 0 255 v1 syms 14;
          out = spec_chainback v2 (\<lambda>i. 0) 8 0
      in Inr (q1\<lparr>enc_bits := Some syms, vp := Some v2\<rparr>, out))"
    by (simp only: ops)
      (simp add: Let_def spec_init_call_def spec_update_call_def spec_chainback_call_def)
  from c1 c2 show ?thesis
    by (rule conjI [rotated])
qed

text \<open>
  Claim C6 says that a decode call with decoded length 0 on a freshly created codec
  returns the empty message. In the code \<open>fec_conv_create\<close> sets \<^verbatim>\<open>num_dec_bytes\<close> to 0
  and leaves \<^verbatim>\<open>num_enc_bytes\<close> unassigned, so \<open>fec_conv_setlength\<close> returns early for
  the length 0 and allocates nothing: the unpacking writes through the null pointer
  \<^verbatim>\<open>enc_bits\<close> (here with 5 in the unassigned field).
\<close>

theorem zero_length_decode_on_fresh_codec:
  "fec_conv_create example_externals FEC_CONV_V27 (fresh_object 5) = Inr example_codec \<and>
   fec_conv_decode example_externals (\<lambda>i. 7) example_codec 0 (\<lambda>i. 0) (\<lambda>i. 0) = Inl NullBuffer"
  by (simp add: example_codec_created decode_unsized example_codec_fields)

subsection \<open>The decoder of the spec on the symbols of an encoded message\<close>

lemma spec_update_blk_Suc:
  "spec_update_blk k ps s0 s1 d syms (Suc N) =
   spec_update k ps s0 s1 (obs_at (length ps) syms N) (spec_update_blk k ps s0 s1 d syms N)"
  by (simp add: spec_update_blk_def obs_at_def)

lemma viterbi_run:
  "N \<le> length (survivors v) \<Longrightarrow>
   spec_update_blk k ps s0 s1 (spec_reset k big v 0) syms N =
     \<lparr>metrics = path_metrics k ps s0 s1 big syms N,
      survivors = map (decisions k ps s0 s1 big syms) [0..<N] @ drop N (survivors v),
      steps = N\<rparr>"
proof (induction N)
  case 0
  show ?case
    by (simp add: spec_update_blk_def spec_reset_def)
next
  case (Suc N)
  let ?A = "map (decisions k ps s0 s1 big syms) [0..<N]"
  from Suc.prems have lt: "N < length (survivors v)"
    by simp
  then have ih: "spec_update_blk k ps s0 s1 (spec_reset k big v 0) syms N =
     \<lparr>metrics = path_metrics k ps s0 s1 big syms N,
      survivors = ?A @ drop N (survivors v), steps = N\<rparr>"
    using Suc.IH by simp
  have "(?A @ drop N (survivors v))[N := decisions k ps s0 s1 big syms N] =
        ?A @ (drop N (survivors v))[0 := decisions k ps s0 s1 big syms N]"
    by (simp add: list_update_append)
  also from lt have "(drop N (survivors v))[0 := decisions k ps s0 s1 big syms N] =
      decisions k ps s0 s1 big syms N # drop (Suc N) (survivors v)"
    by (simp add: Cons_nth_drop_Suc [symmetric])
  finally have upd: "(?A @ drop N (survivors v))[N := decisions k ps s0 s1 big syms N] =
      map (decisions k ps s0 s1 big syms) [0..<Suc N] @ drop (Suc N) (survivors v)"
    by simp
  have step: "spec_update k ps s0 s1 (obs_at (length ps) syms N)
        \<lparr>metrics = path_metrics k ps s0 s1 big syms N, survivors = X, steps = N\<rparr> =
      \<lparr>metrics = path_metrics k ps s0 s1 big syms (Suc N),
       survivors = X[N := decisions k ps s0 s1 big syms N], steps = Suc N\<rparr>" for X
    by (simp add: spec_update_def Let_def decisions_def comp_def)
  show ?case
    by (simp only: spec_update_blk_Suc ih step upd)
qed

lemma viterbi_run_full:
  "length (survivors v) = N \<Longrightarrow>
   spec_update_blk k ps s0 s1 (spec_reset k big v 0) syms N =
     \<lparr>metrics = path_metrics k ps s0 s1 big syms N,
      survivors = map (decisions k ps s0 s1 big syms) [0..<N],
      steps = N\<rparr>"
  using viterbi_run [of N v k ps s0 s1 big syms] by simp


lemma fits_bit: "take_bit k p = p \<Longrightarrow> bit p j \<Longrightarrow> j < k"
  for p :: u32
  by (metis bit_take_bit_iff)

lemma spec_push_and:
  assumes "take_bit k p = p" and "1 \<le> k"
  shows "spec_push reg b AND p = (push_bit 1 (take_bit (k - 1) reg) OR of_bool b) AND p"
proof (rule bit_eqI)
  fix j
  show "bit (spec_push reg b AND p) j = bit ((push_bit 1 (take_bit (k - 1) reg) OR of_bool b) AND p) j"
  proof (cases "bit p j")
    case False
    then show ?thesis
      by (simp add: bit_and_iff)
  next
    case True
    from fits_bit [OF assms(1) True] have j: "j < k" .
    have "bit (push_bit 1 reg OR of_bool b) j =
          bit (push_bit 1 (take_bit (k - 1) reg) OR of_bool b) j"
      using j by (simp only: bit_or_iff bit_push_bit_iff bit_take_bit_iff bit_of_bool_iff) auto
    then show ?thesis
      by (simp only: bit_and_iff spec_push_def)
  qed
qed

lemma branch_output_state:
  assumes "list_all (\<lambda>p. take_bit k p = p) ps" and "1 \<le> k"
  shows "spec_outputs ps (spec_push reg b) = branch_output ps (unat (take_bit (k - 1) reg)) b"
proof -
  have "parity (spec_push reg b AND p) =
        parity ((push_bit 1 (of_nat (unat (take_bit (k - 1) reg))) OR of_bool b) AND p)"
    if "p \<in> set ps" for p
  proof -
    from assms(1) that have "take_bit k p = p"
      by (simp add: list_all_iff)
    from spec_push_and [OF this assms(2)] show ?thesis
      by simp
  qed
  then show ?thesis
    by (simp add: spec_outputs_def branch_output_def)
qed

lemma double_or_bool: "2 * (x::nat) + of_bool b = push_bit 1 x OR of_bool b"
proof (cases b)
  case True
  have "push_bit 1 x OR 1 = push_bit 1 x + of_bool (even (push_bit 1 x))"
    by (rule or_one_eq)
  also have "\<dots> = 2 * x + 1"
    by simp
  finally show ?thesis
    using True by simp
next
  case False
  then show ?thesis
    by simp
qed

lemma next_state_register:
  assumes "1 \<le> k" and "k \<le> 33"
  shows "unat (take_bit (k - 1) (spec_push reg b)) = next_state k (unat (take_bit (k - 1) reg)) b"
proof -
  let ?n = "k - 1"
  from assms have n: "?n \<le> 32"
    by simp
  have "unat (take_bit ?n (spec_push reg b)) =
        take_bit ?n (take_bit 32 (push_bit 1 (unat reg)) OR of_bool b)"
    by (simp add: spec_push_def unsigned_take_bit_eq unsigned_or_eq unsigned_push_bit_eq
        del: push_bit_Suc)
  also have "\<dots> = take_bit ?n (push_bit 1 (take_bit ?n (unat reg)) OR of_bool b)"
  proof (rule bit_eqI)
    fix j
    show "bit (take_bit ?n (take_bit 32 (push_bit 1 (unat reg)) OR of_bool b)) j =
          bit (take_bit ?n (push_bit 1 (take_bit ?n (unat reg)) OR of_bool b)) j"
      using n by (simp only: bit_take_bit_iff bit_or_iff bit_push_bit_iff bit_of_bool_iff) auto
  qed
  also have "\<dots> = next_state k (take_bit ?n (unat reg)) b"
    by (simp only: next_state_def num_states_def double_or_bool take_bit_eq_mod)
  finally show ?thesis
    by (simp only: unsigned_take_bit_eq)
qed

lemma state_of_snoc: "state_of k (bs @ [b]) = next_state k (state_of k bs) b"
  by (simp add: state_of_def)

lemma state_of_register:
  assumes "1 \<le> k" and "k \<le> 33"
  shows "state_of k bs = unat (take_bit (k - 1) (spec_register 0 bs))"
proof (induction bs rule: rev_induct)
  case Nil
  show ?case
    by (simp add: state_of_def spec_register_def)
next
  case (snoc b bs)
  show ?case
    by (simp only: state_of_snoc spec_register_snoc snoc.IH next_state_register [OF assms])
qed

lemma popcount_flip:
  assumes "bit w1 0" and "\<not> bit w0 0" and "\<And>i. 0 < i \<Longrightarrow> bit w1 i = bit w0 i"
  shows "popcount w1 = Suc (popcount w0)"
proof -
  have u: "[0..<32] = 0 # [1..<32]"
    by (simp add: upt_rec)
  have "filter (bit w1) [1..<32] = filter (bit w0) [1..<32]"
    by (rule filter_cong) (simp_all add: assms(3))
  with assms(1,2) show ?thesis
    by (simp only: popcount_def u) simp
qed

lemma parity_flip:
  assumes "bit p 0"
  shows "parity ((push_bit 1 y OR of_bool True) AND p) \<noteq> parity ((push_bit 1 y OR of_bool False) AND p)"
proof -
  let ?w1 = "(push_bit 1 y OR of_bool True) AND p"
  let ?w0 = "(push_bit 1 y OR of_bool False) AND p"
  have a: "bit ?w1 0"
    using assms by (simp only: bit_and_iff bit_or_iff bit_push_bit_iff bit_of_bool_iff) simp
  have b: "\<not> bit ?w0 0"
    by (simp only: bit_and_iff bit_or_iff bit_push_bit_iff bit_of_bool_iff) simp
  have c: "bit ?w1 i = bit ?w0 i" if "0 < i" for i
    using that by (simp only: bit_and_iff bit_or_iff bit_push_bit_iff bit_of_bool_iff) simp
  from popcount_flip [OF a b c] show ?thesis
    by (simp add: parity_def)
qed

lemma branch_output_inj:
  assumes "list_ex (\<lambda>p. bit p 0) ps" and "branch_output ps s b = branch_output ps s b'"
  shows "b = b'"
proof (rule ccontr)
  assume ne: "b \<noteq> b'"
  from assms(1) obtain p where p: "p \<in> set ps" "bit p 0"
    by (auto simp add: list_ex_iff)
  from assms(2) p(1) have eq: "parity ((push_bit 1 (of_nat s) OR of_bool b) AND p) =
      parity ((push_bit 1 (of_nat s) OR of_bool b') AND p)"
    by (simp add: branch_output_def)
  from ne parity_flip [OF p(2), of "of_nat s"] eq show False
    by (cases b; cases b') simp_all
qed

lemma softbit_inj: "s0 \<noteq> s1 \<Longrightarrow> softbit s0 s1 a = softbit s0 s1 b \<Longrightarrow> a = b"
  by (simp add: softbit_def split: if_splits)

lemma distance_zero:
  "length es = length ys \<Longrightarrow>
   sum_list (map2 (symbol_distance s0 s1) es ys) = 0 \<longleftrightarrow> ys = map (softbit s0 s1) es"
  by (induction es ys rule: list_induct2) (auto simp add: symbol_distance_def)

lemma branch_metric_zero:
  "length ys = length ps \<Longrightarrow>
   branch_metric ps s0 s1 s b ys = 0 \<longleftrightarrow> ys = map (softbit s0 s1) (branch_output ps s b)"
  using distance_zero [of "branch_output ps s b" ys s0 s1]
  by (simp add: branch_metric_def branch_output_def)


lemma num_states_double: "2 \<le> k \<Longrightarrow> num_states k = 2 * (num_states k div 2)"
proof -
  assume "2 \<le> k"
  then obtain j where "k - 1 = Suc j"
    by (metis Suc_diff_le diff_Suc_1 numeral_2_eq_2 One_nat_def Suc_le_D diff_Suc_Suc)
  then show ?thesis
    by (simp add: num_states_def)
qed

lemma num_states_pos [simp]: "0 < num_states k"
  by (simp add: num_states_def)

lemma next_state_less [simp]: "next_state k s b < num_states k"
  by (simp add: next_state_def)

lemma state_of_less [simp]: "state_of k bs < num_states k"
  by (induction bs rule: rev_induct) (simp_all add: state_of_def)

lemma next_state_half:
  assumes "2 \<le> k"
  shows "next_state k a b = 2 * (a mod (num_states k div 2)) + of_bool b"
proof -
  let ?h = "num_states k div 2"
  note d = num_states_double [OF assms]
  from d have h: "0 < ?h"
    using num_states_pos [of k] by linarith
  have "(2 * a + of_bool b) mod (2 * ?h) = (2 * a mod (2 * ?h) + of_bool b) mod (2 * ?h)"
    by (rule mod_add_left_eq [symmetric])
  also have "2 * a mod (2 * ?h) = 2 * (a mod ?h)"
    by (rule mult_mod_right [symmetric])
  also have "(2 * (a mod ?h) + of_bool b) mod (2 * ?h) = 2 * (a mod ?h) + of_bool b"
  proof (rule mod_less)
    from h have "a mod ?h < ?h"
      by simp
    then show "2 * (a mod ?h) + of_bool b < 2 * ?h"
      by (cases b) simp_all
  qed
  finally have "(2 * a + of_bool b) mod (2 * ?h) = 2 * (a mod ?h) + of_bool b" .
  then show ?thesis
    unfolding next_state_def using d by simp
qed

lemma next_state_iff:
  assumes "2 \<le> k" and "a < num_states k" and "s' < num_states k"
  shows "s' = next_state k a b \<longleftrightarrow>
         odd s' = b \<and> (a = s' div 2 \<or> a = s' div 2 + num_states k div 2)"
proof -
  let ?h = "num_states k div 2"
  note d = num_states_double [OF assms(1)]
  from d assms(2,3) have a: "a < 2 * ?h" and s: "s' div 2 < ?h"
    by linarith+
  have m: "a mod ?h = c \<longleftrightarrow> a = c \<or> a = c + ?h" if "c < ?h" for c
  proof (cases "a < ?h")
    case True
    with that show ?thesis
      by auto
  next
    case False
    with a have "a mod ?h = a - ?h"
      by (metis add_diff_inverse_nat less_imp_diff_less mod_add_self1 mod_less mult_2 nat_add_left_cancel_less)
    with False that show ?thesis
      by auto
  qed
  have "s' = 2 * (a mod ?h) + of_bool b \<longleftrightarrow> odd s' = b \<and> a mod ?h = s' div 2"
    by (cases b) auto
  with m [OF s] show ?thesis
    by (simp only: next_state_half [OF assms(1)])
qed

lemma fst_best:
  "fst (best_incoming k ps s0 s1 pm ys s') =
     min (pm ! (s' div 2) + branch_metric ps s0 s1 (s' div 2) (odd s') ys)
         (pm ! (s' div 2 + num_states k div 2) +
            branch_metric ps s0 s1 (s' div 2 + num_states k div 2) (odd s') ys)"
  by (simp add: best_incoming_def Let_def min_def)

lemma snd_best:
  "snd (best_incoming k ps s0 s1 pm ys s') =
     (if pm ! (s' div 2) + branch_metric ps s0 s1 (s' div 2) (odd s') ys
         \<le> pm ! (s' div 2 + num_states k div 2) +
            branch_metric ps s0 s1 (s' div 2 + num_states k div 2) (odd s') ys
      then s' div 2 else s' div 2 + num_states k div 2)"
  by (simp add: best_incoming_def Let_def)

lemma spec_run_block:
  "t < length bs \<Longrightarrow>
   take (length ps) (drop (length ps * t) (spec_run ps reg bs)) =
   spec_outputs ps (spec_register reg (take (Suc t) bs))"
proof (induction bs arbitrary: reg t)
  case Nil
  then show ?case by simp
next
  case (Cons b bs)
  have len: "length (spec_outputs ps (spec_push reg b)) = length ps"
    by (simp add: spec_outputs_def)
  show ?case
  proof (cases t)
    case 0
    then show ?thesis
      by (simp add: len spec_register_def)
  next
    case (Suc t')
    with Cons.prems have t': "t' < length bs"
      by simp
    have "drop (length ps * t) (spec_run ps reg (b # bs)) =
          drop (length ps * t') (spec_run ps (spec_push reg b) bs)"
      by (simp add: Suc len)
    with Cons.IH [OF t', of "spec_push reg b"] show ?thesis
      by (simp add: Suc spec_register_def)
  qed
qed


lemma take_drop_take:
  "a + r \<le> b \<Longrightarrow> take r (drop a (take b xs)) = take r (drop a xs)"
  by (simp add: drop_take min_def)

lemma obs_clean:
  assumes ok: "trellis_ok k ps s0 s1 big" and cl: "clean ps s0 s1 syms bs" and t: "t < length bs"
  shows "obs_at (length ps) syms t =
         map (softbit s0 s1) (branch_output ps (state_of k (take t bs)) (bs ! t))"
proof -
  let ?r = "length ps"
  from ok have k: "1 \<le> k" "k \<le> 33" and fits: "list_all (\<lambda>p. take_bit k p = p) ps"
    by (simp_all add: trellis_ok_def)
  from t have "Suc t \<le> length bs"
    by simp
  then have "?r * Suc t \<le> ?r * length bs"
    by (rule mult_le_mono2)
  then have le: "?r * t + ?r \<le> ?r * length bs"
    by simp
  have "obs_at ?r syms t = take ?r (drop (?r * t) (take (?r * length bs) syms))"
    by (simp only: obs_at_def take_drop_take [OF le])
  also have "\<dots> = map (softbit s0 s1) (take ?r (drop (?r * t) (spec_run ps 0 bs)))"
    using cl by (simp only: clean_def take_map drop_map)
  also have "take ?r (drop (?r * t) (spec_run ps 0 bs)) =
      spec_outputs ps (spec_register 0 (take (Suc t) bs))"
    by (rule spec_run_block [OF t])
  also have "spec_register 0 (take (Suc t) bs) = spec_push (spec_register 0 (take t bs)) (bs ! t)"
    using t by (simp only: take_Suc_conv_app_nth spec_register_snoc)
  also have "spec_outputs ps (spec_push (spec_register 0 (take t bs)) (bs ! t)) =
      branch_output ps (state_of k (take t bs)) (bs ! t)"
    by (simp only: branch_output_state [OF fits k(1)] state_of_register [OF k])
  finally show ?thesis .
qed

lemma state_of_Suc:
  "t < length bs \<Longrightarrow> state_of k (take (Suc t) bs) = next_state k (state_of k (take t bs)) (bs ! t)"
  by (simp only: take_Suc_conv_app_nth state_of_snoc)

lemma path_metrics_Suc_nth:
  "s' < num_states k \<Longrightarrow>
   path_metrics k ps s0 s1 big syms (Suc t) ! s' =
   fst (best_incoming k ps s0 s1 (path_metrics k ps s0 s1 big syms t) (obs_at (length ps) syms t) s')"
  by simp

lemma decisions_nth:
  "s' < num_states k \<Longrightarrow>
   decisions k ps s0 s1 big syms t ! s' =
   snd (best_incoming k ps s0 s1 (path_metrics k ps s0 s1 big syms t) (obs_at (length ps) syms t) s')"
  by (simp add: decisions_def)

lemma clean_branch_zero:
  assumes ok: "trellis_ok k ps s0 s1 big" and cl: "clean ps s0 s1 syms bs" and t: "t < length bs"
  shows "branch_metric ps s0 s1 (state_of k (take t bs)) b (obs_at (length ps) syms t) = 0 \<longleftrightarrow>
         b = bs ! t"
proof -
  from ok have ex: "list_ex (\<lambda>p. bit p 0) ps" and ne: "s0 \<noteq> s1"
    by (simp_all add: trellis_ok_def)
  note o = obs_clean [OF ok cl t]
  have len: "length (obs_at (length ps) syms t) = length ps"
    by (simp add: o branch_output_def)
  have "branch_metric ps s0 s1 (state_of k (take t bs)) b (obs_at (length ps) syms t) = 0 \<longleftrightarrow>
        obs_at (length ps) syms t =
        map (softbit s0 s1) (branch_output ps (state_of k (take t bs)) b)"
    by (rule branch_metric_zero [OF len])
  also have "\<dots> \<longleftrightarrow>
        map (softbit s0 s1) (branch_output ps (state_of k (take t bs)) (bs ! t)) =
        map (softbit s0 s1) (branch_output ps (state_of k (take t bs)) b)"
    by (simp only: o)
  also have "\<dots> \<longleftrightarrow>
        branch_output ps (state_of k (take t bs)) (bs ! t) =
        branch_output ps (state_of k (take t bs)) b"
    using ne by (intro inj_map_eq_map injI) (rule softbit_inj)
  also have "\<dots> \<longleftrightarrow> b = bs ! t"
    using branch_output_inj [OF ex] by auto
  finally show ?thesis .
qed

text \<open>On a clean stream the path metric is zero at the state of the encoder and nowhere else.\<close>

lemma metric_zero_iff:
  assumes ok: "trellis_ok k ps s0 s1 big" and cl: "clean ps s0 s1 syms bs"
  shows "t \<le> length bs \<Longrightarrow> s < num_states k \<Longrightarrow>
         path_metrics k ps s0 s1 big syms t ! s = 0 \<longleftrightarrow> s = state_of k (take t bs)"
proof (induction t arbitrary: s)
  case 0
  from ok have "0 < big"
    by (simp add: trellis_ok_def)
  with 0 show ?case
    by (simp add: state_of_def)
next
  case (Suc t)
  let ?pm = "path_metrics k ps s0 s1 big syms t"
  let ?ys = "obs_at (length ps) syms t"
  let ?h = "num_states k div 2"
  let ?st = "state_of k (take t bs)"
  from ok have k2: "2 \<le> k"
    by (simp add: trellis_ok_def)
  from Suc.prems have t: "t < length bs" "t \<le> length bs"
    by simp_all
  note d = num_states_double [OF k2]
  from d Suc.prems(2) have p0: "s div 2 < num_states k" and p1: "s div 2 + ?h < num_states k"
    by linarith+
  have z0: "?pm ! (s div 2) + branch_metric ps s0 s1 (s div 2) (odd s) ?ys = 0 \<longleftrightarrow>
      s div 2 = ?st \<and> odd s = bs ! t"
    using Suc.IH [OF t(2) p0] clean_branch_zero [OF ok cl t(1), of "odd s"] by auto
  have z1: "?pm ! (s div 2 + ?h) + branch_metric ps s0 s1 (s div 2 + ?h) (odd s) ?ys = 0 \<longleftrightarrow>
      s div 2 + ?h = ?st \<and> odd s = bs ! t"
    using Suc.IH [OF t(2) p1] clean_branch_zero [OF ok cl t(1), of "odd s"] by auto
  have "path_metrics k ps s0 s1 big syms (Suc t) ! s = 0 \<longleftrightarrow>
      (s div 2 = ?st \<or> s div 2 + ?h = ?st) \<and> odd s = bs ! t"
    using z0 z1 by (simp only: path_metrics_Suc_nth [OF Suc.prems(2)] fst_best min_def) auto
  also have "\<dots> \<longleftrightarrow> s = next_state k ?st (bs ! t)"
    using next_state_iff [OF k2 state_of_less Suc.prems(2), of "take t bs" "bs ! t"] by auto
  finally show ?case
    by (simp only: state_of_Suc [OF t(1)])
qed

lemma decision_on_path:
  assumes ok: "trellis_ok k ps s0 s1 big" and cl: "clean ps s0 s1 syms bs" and t: "t < length bs"
  shows "decisions k ps s0 s1 big syms t ! state_of k (take (Suc t) bs) = state_of k (take t bs)"
proof -
  let ?pm = "path_metrics k ps s0 s1 big syms t"
  let ?ys = "obs_at (length ps) syms t"
  let ?h = "num_states k div 2"
  let ?st = "state_of k (take t bs)"
  let ?s = "state_of k (take (Suc t) bs)"
  from ok have k2: "2 \<le> k"
    by (simp add: trellis_ok_def)
  note d = num_states_double [OF k2]
  have s: "?s < num_states k"
    by simp
  from d s have p0: "?s div 2 < num_states k" and p1: "?s div 2 + ?h < num_states k"
    by linarith+
  from d have h: "0 < ?h"
    using num_states_pos [of k] by linarith
  have "?s = next_state k ?st (bs ! t)"
    by (rule state_of_Suc [OF t])
  with next_state_iff [OF k2 state_of_less s, of "take t bs" "bs ! t"]
  have lab: "odd ?s = bs ! t" and pred: "?st = ?s div 2 \<or> ?st = ?s div 2 + ?h"
    by simp_all
  from t have tl: "t \<le> length bs"
    by simp
  note bz = clean_branch_zero [OF ok cl t, of "odd ?s"]
  from pred show ?thesis
  proof
    assume e: "?st = ?s div 2"
    have "?pm ! (?s div 2) = 0"
      using metric_zero_iff [OF ok cl tl p0] e by simp
    moreover have "branch_metric ps s0 s1 (?s div 2) (odd ?s) ?ys = 0"
      using bz lab e by simp
    ultimately show ?thesis
      using e by (simp only: decisions_nth [OF s] snd_best) simp
  next
    assume e: "?st = ?s div 2 + ?h"
    with h have "?s div 2 \<noteq> ?st"
      by simp
    then have "?pm ! (?s div 2) \<noteq> 0"
      using metric_zero_iff [OF ok cl tl p0] by simp
    moreover have "?pm ! (?s div 2 + ?h) = 0"
      using metric_zero_iff [OF ok cl tl p1] e by simp
    moreover have "branch_metric ps s0 s1 (?s div 2 + ?h) (odd ?s) ?ys = 0"
      using bz lab e by simp
    ultimately show ?thesis
      using e by (simp only: decisions_nth [OF s] snd_best) simp
  qed
qed


lemma walk_back_path:
  assumes ok: "trellis_ok k ps s0 s1 big" and cl: "clean ps s0 s1 syms bs"
  shows "t \<le> length bs \<Longrightarrow>
         walk_back (map (decisions k ps s0 s1 big syms) [0..<length bs]) t (state_of k (take t bs)) =
         rev (take t bs)"
proof (induction t)
  case 0
  show ?case by simp
next
  case (Suc t)
  then have t: "t < length bs"
    by simp
  from ok have k2: "2 \<le> k"
    by (simp add: trellis_ok_def)
  have "state_of k (take (Suc t) bs) = next_state k (state_of k (take t bs)) (bs ! t)"
    by (rule state_of_Suc [OF t])
  with next_state_iff [OF k2 state_of_less state_of_less, of "take (Suc t) bs" "take t bs" "bs ! t"]
  have lab: "odd (state_of k (take (Suc t) bs)) = bs ! t"
    by simp
  have row: "map (decisions k ps s0 s1 big syms) [0..<length bs] ! t = decisions k ps s0 s1 big syms t"
    using t by simp
  have "walk_back (map (decisions k ps s0 s1 big syms) [0..<length bs]) (Suc t)
          (state_of k (take (Suc t) bs)) =
        bs ! t # walk_back (map (decisions k ps s0 s1 big syms) [0..<length bs]) t
          (state_of k (take t bs))"
    by (simp only: walk_back.simps row lab decision_on_path [OF ok cl t])
  also have "\<dots> = bs ! t # rev (take t bs)"
    using Suc.IH t by simp
  also have "\<dots> = rev (take (Suc t) bs)"
    using t by (simp add: take_Suc_conv_app_nth)
  finally show ?case .
qed

lemma state_of_flushed:
  assumes "1 \<le> k" and "k \<le> 33"
  shows "state_of k (bs @ replicate (k - 1) False) = 0"
proof -
  have "take_bit (k - 1) (spec_register 0 (bs @ replicate (k - 1) False)) = 0"
    by (simp only: spec_register_append spec_register_zeros take_bit_push_bit) simp
  then show ?thesis
    by (simp only: state_of_register [OF assms]) simp
qed

lemma pack_byte_bits: "pack_byte (byte_bits w) = w"
proof (rule bit_eqI)
  fix j
  assume "possible_bit TYPE(u8) j"
  then have j: "j < 8"
    by (simp add: possible_bit_word)
  then have "7 - (7 - j) = j"
    by simp
  with j show "bit (pack_byte (byte_bits w)) j = bit w j"
    by (simp add: bit_pack_byte byte_bits_def del: upt_Suc)
qed

lemma message_bits_Suc: "message_bits m (Suc len) = message_bits m len @ byte_bits (m len)"
  by (simp add: message_bits_def)

lemma message_bits_block:
  "i < len \<Longrightarrow> take 8 (drop (8 * i) (message_bits m len)) = byte_bits (m i)"
proof (induction len)
  case 0
  then show ?case by simp
next
  case (Suc len)
  show ?case
  proof (cases "i < len")
    case True
    then have "8 * i + 8 \<le> length (message_bits m len)"
      by simp
    with Suc.IH [OF True] show ?thesis
      by (simp add: message_bits_Suc)
  next
    case False
    with Suc.prems have "i = len"
      by simp
    then show ?thesis
      by (simp add: message_bits_Suc)
  qed
qed

text \<open>The decoder of the spec, run on the clean symbols of a message, returns the message.\<close>

lemma viterbi_decodes:
  assumes ok: "trellis_ok k ps s0 s1 big"
    and cl: "clean ps s0 s1 syms (message_bits m len @ replicate (k - 1) False)"
    and sv: "length (survivors v) = 8 * len + (k - 1)"
  shows "spec_chainback
           (spec_update_blk k ps s0 s1 (spec_reset k big v 0) syms (8 * len + (k - 1)))
           d (8 * len) 0 =
         (\<lambda>i. if i < len then m i else d i)"
proof -
  let ?bs = "message_bits m len @ replicate (k - 1) False"
  let ?N = "8 * len + (k - 1)"
  from ok have k: "1 \<le> k" "k \<le> 33"
    by (simp_all add: trellis_ok_def)
  have lbs: "length ?bs = ?N"
    by simp
  have run: "spec_update_blk k ps s0 s1 (spec_reset k big v 0) syms ?N =
     \<lparr>metrics = path_metrics k ps s0 s1 big syms ?N,
      survivors = map (decisions k ps s0 s1 big syms) [0..<?N], steps = ?N\<rparr>"
    by (rule viterbi_run_full [OF sv])
  have "walk_back (map (decisions k ps s0 s1 big syms) [0..<length ?bs]) (length ?bs)
          (state_of k (take (length ?bs) ?bs)) = rev (take (length ?bs) ?bs)"
    by (rule walk_back_path [OF ok cl]) simp
  then have "walk_back (map (decisions k ps s0 s1 big syms) [0..<?N]) ?N 0 = rev ?bs"
    by (simp only: lbs [symmetric] take_all order_refl state_of_flushed [OF k])
  then have bits: "take (8 * len) (rev (walk_back (map (decisions k ps s0 s1 big syms) [0..<?N]) ?N 0)) =
      message_bits m len"
    by simp
  show ?thesis
  proof
    fix i
    show "spec_chainback
           (spec_update_blk k ps s0 s1 (spec_reset k big v 0) syms ?N) d (8 * len) 0 i =
         (if i < len then m i else d i)"
      by (simp only: spec_chainback_def Let_def run decoder.select_convs bits)
        (simp add: message_bits_block pack_byte_bits)
  qed
qed


lemma map_table: "map (table ps) [0..<length ps] = ps"
  by (rule nth_equalityI) (simp_all add: table_def)

lemma codec_of_created: "fec_conv_create env fs raw = Inr q \<Longrightarrow> codec_of env fs q"
  by (cases fs)
    (auto simp add: codec_of_def scheme_poly_def scheme_ops_def fec_conv_create_def
      fec_conv_init_v27_def fec_conv_init_v29_def fec_conv_init_v39_def fec_conv_init_v615_def
      install_def)

lemma codec_of_memory:
  "codec_of env fs q \<Longrightarrow>
   codec_of env fs (q\<lparr>num_dec_bytes := a, num_enc_bytes := b, enc_bits := c, vp := d\<rparr>)"
  by (simp add: codec_of_def)

lemma codec_of_setlength:
  "codec_of env fs q \<Longrightarrow> codec_of env fs (fec_conv_setlength junk q len)"
  by (simp add: codec_of_def)

lemma spec_codec:
  assumes "codec_of (spec_externals t27 t29 t39 t615 s0 s1 big) fs q"
    and "good_table 7 2 t27" and "good_table 9 2 t29" and "good_table 9 3 t39"
    and "good_table 15 6 t615"
  obtains ps where "good_table (K q) (R q) ps" and "poly q = table ps"
    and "create_viterbi q = spec_create (K q)"
    and "init_viterbi q = spec_init_call (K q) big"
    and "update_viterbi_blk q = spec_update_call (K q) ps s0 s1"
    and "chainback_viterbi q = spec_chainback_call"
    and "7 \<le> K q" and "K q \<le> 15"
  using assms
  by (cases fs)
    (simp_all add: codec_of_def scheme_poly_def scheme_ops_def spec_externals_def spec_viterbi_def)


lemma ready_setlength:
  assumes cat: "catalog (scheme q) = Some (R q, K q)"
    and cr: "create_viterbi q = spec_create (K q)"
    and ready: "len \<noteq> num_dec_bytes q \<or> decoder_ready q"
    and fits: "8 * encoded_bytes (R q) (K q) len < 2 ^ 32"
  obtains v0 where "sized (fec_conv_setlength junk q len)"
    and "vp (fec_conv_setlength junk q len) = Some v0"
    and "length (survivors v0) = 8 * len + (K q - 1)"
    and "num_enc_bytes (fec_conv_setlength junk q len) = encoded_bytes (R q) (K q) len"
proof (cases "len = num_dec_bytes q")
  case True
  with ready have r: "decoder_ready q"
    by simp
  from True have same: "fec_conv_setlength junk q len = q"
    by (simp add: fec_conv_setlength_def)
  from r obtain v where v: "vp q = Some v" "length (survivors v) = 8 * num_dec_bytes q + (K q - 1)"
    by (auto simp add: decoder_ready_def split: option.splits)
  from r have "sized q" "num_enc_bytes q = encoded_bytes (R q) (K q) len"
    by (simp_all add: decoder_ready_def fec_get_enc_msg_length_def cat True)
  with v True same that show ?thesis
    by simp
next
  case False
  have len: "fec_get_enc_msg_length (scheme q) len = encoded_bytes (R q) (K q) len"
    by (simp add: fec_get_enc_msg_length_def cat)
  with fits have f: "8 * fec_get_enc_msg_length (scheme q) len < 2 ^ 32"
    by simp
  note s = sized_setlength [OF False f, of junk]
  have "encoded_bits (R q) (K q) len \<le> 8 * encoded_bytes (R q) (K q) len"
    by (rule encoded_bits_le)
  moreover have "8 * len \<le> encoded_bits (R q) (K q) len"
  proof -
    from catalog_bounds [OF cat] have "1 \<le> R q" "8 * len \<le> 8 * len + K q - 1"
      by linarith+
    then have "1 * (8 * len) \<le> R q * (8 * len + K q - 1)"
      by (rule mult_le_mono)
    then show ?thesis
      by (simp add: encoded_bits_def)
  qed
  ultimately have "8 * len < 2 ^ 32"
    using fits by linarith
  then have w: "wrap32 (8 * len) = 8 * len"
    by (simp add: wrap32_def)
  from catalog_bounds [OF cat] have "8 * len + K q - 1 = 8 * len + (K q - 1)"
    by simp
  then have "length (survivors (spec_create (K q) (8 * len))) = 8 * len + (K q - 1)"
    by (simp add: spec_create_def)
  with s that show ?thesis
    by (simp add: cr w len)
qed

lemma viterbi_decodes_after:
  assumes ok: "trellis_ok k ps s0 s1 big"
    and cl: "clean ps s0 s1 syms (message_bits m len @ replicate (k - 1) False)"
  shows "spec_chainback (trellis_after k ps s0 s1 big syms (8 * len + (k - 1))) d (8 * len) 0 =
         (\<lambda>i. if i < len then m i else d i)"
proof -
  let ?v = "\<lparr>metrics = [], survivors = replicate (8 * len + (k - 1)) [], steps = 0\<rparr>"
  have sv: "length (survivors ?v) = 8 * len + (k - 1)"
    by simp
  from viterbi_decodes [OF ok cl sv, of d] show ?thesis
    by (simp only: viterbi_run_full [OF sv] trellis_after_def)
qed

lemma good_table_ok:
  assumes "good_table k r ps" and "2 \<le> k" and "k \<le> 32" and "s0 \<noteq> s1" and "0 < big"
  shows "trellis_ok k ps s0 s1 big"
  using assms by (simp add: good_table_def trellis_ok_def)

text \<open>The symbols that the decoder receives for the output of the encoder are clean.\<close>

lemma encoded_symbols_clean:
  assumes cat: "catalog (scheme q) = Some (R q, K q)"
    and fits: "8 * encoded_bytes (R q) (K q) len < 2 ^ 32"
    and s0: "FEC_SOFTBIT_0 env = s0" and s1: "FEC_SOFTBIT_1 env = s1"
  shows "clean (polys q) s0 s1
           (symbols env (msg_enc (encode_loops q len m out)) (encoded_bytes (R q) (K q) len))
           (message_bits m len @ replicate (K q - 1) False)"
proof -
  let ?bs = "message_bits m len @ replicate (K q - 1) False"
  let ?run = "spec_run (polys q) 0 ?bs"
  let ?N = "encoded_bytes (R q) (K q) len"
  let ?syms = "symbols env (msg_enc (encode_loops q len m out)) ?N"
  from catalog_bounds [OF cat] have K: "1 \<le> K q"
    by simp
  then have "8 * len + (K q - 1) = 8 * len + K q - 1"
    by simp
  then have lrun: "length ?run = encoded_bits (R q) (K q) len"
    by (simp add: length_spec_run encoded_bits_def)
  have le: "length ?run \<le> 8 * ?N"
    using encoded_bits_le(1) [of "R q" "K q" len] by (simp only: lrun)
  have stream: "spec_encode_stream (K q) (polys q) m len = ?run @ spec_padding (length ?run)"
    by (simp add: spec_encode_stream_def Let_def)
  have "take (length ?run) ?syms = map (softbit s0 s1) ?run"
  proof (rule nth_equalityI)
    show "length (take (length ?run) ?syms) = length (map (softbit s0 s1) ?run)"
      using le by simp
  next
    fix i
    assume "i < length (take (length ?run) ?syms)"
    with le have i: "i < length ?run" and i8: "i < 8 * ?N"
      by simp_all
    have "take (length ?run) ?syms ! i = ?syms ! i"
      using i by simp
    also have "\<dots> = softbit s0 s1 (bit (msg_enc (encode_loops q len m out) (i div 8)) (7 - i mod 8))"
      by (simp only: nth_symbols [OF i8] softbit_def s0 s1)
    also have "bit (msg_enc (encode_loops q len m out) (i div 8)) (7 - i mod 8) =
        spec_encode_stream (K q) (polys q) m len ! i"
      by (rule encode_bit_at [OF cat fits i8])
    also have "\<dots> = ?run ! i"
      using i by (simp only: stream nth_append if_True)
    finally show "take (length ?run) ?syms ! i = map (softbit s0 s1) ?run ! i"
      using i by simp
  qed
  moreover have "length (polys q) * length ?bs = length ?run"
    by (simp add: length_spec_run)
  ultimately show ?thesis
    by (simp only: clean_def)
qed

lemma decode_spec_codec:
  assumes env: "env = spec_externals t27 t29 t39 t615 s0 s1 big"
    and co: "codec_of env fs q"
    and tabs: "good_table 7 2 t27" "good_table 9 2 t29" "good_table 9 3 t39" "good_table 15 6 t615"
    and ready: "len \<noteq> num_dec_bytes q \<or> decoder_ready q"
    and fits: "8 * encoded_bytes (R q) (K q) len < 2 ^ 32"
  shows "\<exists>q'. fec_conv_decode env junk q len e d =
           Inr (q', spec_chainback
                      (trellis_after (K q) (polys q) s0 s1 big
                         (symbols env e (encoded_bytes (R q) (K q) len)) (8 * len + (K q - 1)))
                      d (8 * len) 0) \<and>
           codec_of env fs q' \<and> decoder_ready q' \<and> num_dec_bytes q' = len"
proof -
  from co [unfolded env] tabs obtain ps where gt: "good_table (K q) (R q) ps"
    and po: "poly q = table ps" and cr: "create_viterbi q = spec_create (K q)"
    and ini: "init_viterbi q = spec_init_call (K q) big"
    and upd: "update_viterbi_blk q = spec_update_call (K q) ps s0 s1"
    and chn: "chainback_viterbi q = spec_chainback_call" and kb: "7 \<le> K q" "K q \<le> 15"
    by (rule spec_codec)
  from co have cat: "catalog (scheme q) = Some (R q, K q)"
    by (simp add: codec_of_def)
  from gt have "length ps = R q"
    by (simp add: good_table_def)
  then have ps: "polys q = ps"
    by (simp add: polys_def po) (metis map_table)
  let ?q1 = "fec_conv_setlength junk q len"
  let ?Nb = "encoded_bytes (R q) (K q) len"
  let ?N = "8 * len + (K q - 1)"
  let ?syms = "symbols env e ?Nb"
  from cat cr ready fits obtain v0 where sz: "sized ?q1" and v0: "vp ?q1 = Some v0"
    and sv: "length (survivors v0) = ?N" and neb: "num_enc_bytes ?q1 = ?Nb"
    by (rule ready_setlength)
  have "encoded_bits (R q) (K q) len \<le> 8 * ?Nb"
    by (rule encoded_bits_le)
  moreover have "8 * len + K q - 1 \<le> encoded_bits (R q) (K q) len"
  proof -
    from catalog_bounds [OF cat] have "1 \<le> R q"
      by simp
    then have "1 * (8 * len + K q - 1) \<le> R q * (8 * len + K q - 1)"
      by (rule mult_le_mono1)
    then show ?thesis
      by (simp add: encoded_bits_def)
  qed
  ultimately have b: "1 \<le> K q" "8 * len + K q \<le> 2 ^ 32"
    using fits kb by linarith+
  from kb have km: "8 * len + K q - 1 = ?N"
    by simp
  let ?V = "trellis_after (K q) ps s0 s1 big ?syms ?N"
  have run: "update_viterbi_blk q (init_viterbi q (Some v0) 0) (Some ?syms) (8 * len + K q - 1) =
      Some ?V"
    by (simp only: ini upd km spec_init_call_def spec_update_call_def option.case
        viterbi_run_full [OF sv] trellis_after_def)
  let ?q' = "?q1\<lparr>enc_bits := Some ?syms, vp := Some ?V\<rparr>"
  have dec: "fec_conv_decode env junk q len e d = Inr (?q', spec_chainback ?V d (8 * len) 0)"
    using decode_calls [OF sz v0 b, of env e d, THEN conjunct2, THEN conjunct2]
    by (simp only: Let_def neb run chn spec_chainback_call_def option.case)
  have c1: "codec_of env fs ?q'"
    using codec_of_setlength [OF co, of junk len] by (simp add: codec_of_def)
  from sz have "8 * num_enc_bytes ?q1 < 2 ^ 32"
    by (simp add: sized_def)
  then have c2: "decoder_ready ?q'"
    by (simp add: decoder_ready_def sized_def neb trellis_after_def fec_get_enc_msg_length_def cat)
  have c3: "num_dec_bytes ?q' = len"
    by simp
  from dec c1 c2 c3 show ?thesis
    by (simp only: ps) blast
qed




subsection \<open>Round trip and determinism\<close>

text \<open>
  Claim C1 says that decoding the output of the encoder gives the message back for every
  message. It does not hold for every message, whatever the decoder of the library does.
  The counts of the file are \<^verbatim>\<open>unsigned int\<close>: for the scheme \<open>FEC_CONV_V27\<close> and a
  message of \<open>2 ^ 28\<close> bytes the encoder returns, but the decode call gives \<^verbatim>\<open>realloc\<close>
  a size that has wrapped to 16 and unpacks \<open>8 * (2 ^ 29 + 2)\<close> symbols past the end of
  the symbol array. And for the empty message on a new codec the decode call unpacks
  through a null pointer (the subject of claim C6).
\<close>

theorem roundtrip_counterexample:
  "(\<exists>enc. fec_conv_encode example_codec 0 (\<lambda>i. 0) (\<lambda>i. 0) = Inr enc \<and>
      fec_conv_decode example_externals (\<lambda>i. 7) example_codec 0 enc (\<lambda>i. 9) = Inl NullBuffer) \<and>
   (\<exists>enc. fec_conv_encode example_codec (2 ^ 28) (\<lambda>i. 0x41) (\<lambda>i. 0) = Inr enc \<and>
      fec_conv_decode example_externals (\<lambda>i. 7) example_codec (2 ^ 28) enc (\<lambda>i. 9) =
        Inl BufferOverrun)"
proof -
  note u = encode_unbounded(1) [OF example_codec_catalog]
  have ne: "(2::nat) ^ 28 \<noteq> num_dec_bytes example_codec"
    by (simp add: example_codec_fields)
  have a: "fec_conv_decode example_externals (\<lambda>i. 7) example_codec 0 enc (\<lambda>i. 9) = Inl NullBuffer"
    for enc
    by (simp add: decode_unsized example_codec_fields)
  from u [of 0 "\<lambda>i. 0" "\<lambda>i. 0"] u [of "2 ^ 28" "\<lambda>i. 0x41" "\<lambda>i. 0"] a
    decode_overrun [OF ne example_overruns]
  show ?thesis
    by blast
qed

text \<open>
  Claim C1, amended. With the decoder of the spec in the place of the library, for every
  supported scheme whose polynomial table is good and every message, decoding the
  uncorrupted output of the encoder with the length of the message gives the message
  back: the first \<open>len\<close> bytes of the decoded array are the message and the rest of the
  array is untouched. The codec may be new or reused in any state that earlier calls
  leave it in, as long as its working memory is sized when the decoder runs (the call
  resizes it, or it is ready for this length), and as long as the encoded bit count
  \<open>8 * ceil (R * (8 * len + K - 1) / 8)\<close> is below \<open>2 ^ 32\<close>; the call returns a codec for
  which this holds again. Nothing is said here of the empty message on a new codec.
\<close>

theorem roundtrip:
  assumes "env = spec_externals t27 t29 t39 t615 s0 s1 big"
    and "codec_of env fs q"
    and "good_table 7 2 t27" and "good_table 9 2 t29" and "good_table 9 3 t39"
    and "good_table 15 6 t615"
    and "s0 \<noteq> s1" and "0 < big"
    and "len \<noteq> num_dec_bytes q \<or> decoder_ready q"
    and "8 * encoded_bytes (R q) (K q) len < 2 ^ 32"
  shows "\<exists>enc q' dec'.
           fec_conv_encode q len m out = Inr enc \<and>
           fec_conv_decode env junk q len enc dec = Inr (q', dec') \<and>
           (\<forall>i. dec' i = (if i < len then m i else dec i)) \<and>
           codec_of env fs q' \<and> decoder_ready q'"
proof -
  let ?enc = "msg_enc (encode_loops q len m out)"
  let ?Nb = "encoded_bytes (R q) (K q) len"
  from assms(2) have cat: "catalog (scheme q) = Some (R q, K q)"
    by (simp add: codec_of_def)
  note ret = encode_returns [OF cat assms(10), of m out]
  from assms(2) [unfolded assms(1)] assms(3-6) obtain ps where gt: "good_table (K q) (R q) ps"
    and po: "poly q = table ps" and kb: "7 \<le> K q" "K q \<le> 15"
    by (rule spec_codec)
  from gt have "length ps = R q"
    by (simp add: good_table_def)
  then have ps: "polys q = ps"
    by (simp add: polys_def po) (metis map_table)
  from kb have "2 \<le> K q" "K q \<le> 32"
    by simp_all
  from good_table_ok [OF gt this assms(7,8)] have ok: "trellis_ok (K q) (polys q) s0 s1 big"
    by (simp only: ps)
  have soft: "FEC_SOFTBIT_0 env = s0" "FEC_SOFTBIT_1 env = s1"
    by (simp_all add: assms(1) spec_externals_def)
  note cl = encoded_symbols_clean [OF cat assms(10) soft, of m out]
  note vd = viterbi_decodes_after [OF ok cl, of dec]
  from decode_spec_codec [OF assms(1,2,3,4,5,6,9,10), of junk ?enc dec]
  obtain q' where d: "fec_conv_decode env junk q len ?enc dec =
      Inr (q', spec_chainback
                 (trellis_after (K q) (polys q) s0 s1 big (symbols env ?enc ?Nb)
                    (8 * len + (K q - 1))) dec (8 * len) 0)"
    and c: "codec_of env fs q'" "decoder_ready q'"
    by blast
  from d have "fec_conv_decode env junk q len ?enc dec = Inr (q', \<lambda>i. if i < len then m i else dec i)"
    by (simp only: vd)
  with ret c show ?thesis
    by blast
qed


lemma example_env: "example_externals =
    spec_externals [0x6d, 0x4f] [0x1af, 0x11d] [0x1ed, 0x19b, 0x127]
      [0x4599, 0x4ea5, 0x5d47, 0x76f3, 0x7eb7, 0x695f] 0 255 1000"
  by (simp add: example_externals_def)

lemma example_tables:
  "good_table 7 2 [0x6d, 0x4f]" "good_table 9 2 [0x1af, 0x11d]"
  "good_table 9 3 [0x1ed, 0x19b, 0x127]"
  "good_table 15 6 [0x4599, 0x4ea5, 0x5d47, 0x76f3, 0x7eb7, 0x695f]"
  by (simp_all add: good_table_def)

lemma example_codec_of: "codec_of example_externals FEC_CONV_V27 example_codec"
  by (rule codec_of_created [OF example_codec_created])

lemma example_ready: "1 \<noteq> num_dec_bytes example_codec \<or> decoder_ready example_codec"
  by (simp add: example_codec_fields)

theorem roundtrip_witness:
  "\<exists>enc q' dec'.
     fec_conv_encode example_codec 1 (\<lambda>i. 0x41) (\<lambda>i. 0) = Inr enc \<and>
     fec_conv_decode example_externals (\<lambda>i. 7) example_codec 1 enc (\<lambda>i. 9) = Inr (q', dec') \<and>
     dec' 0 = 0x41 \<and> dec' 1 = 9"
proof -
  have ne: "(0::u8) \<noteq> 255" "(0::nat) < 1000"
    by simp_all
  from roundtrip [OF example_env example_codec_of example_tables ne example_ready example_fits,
      of "\<lambda>i. 0x41" "\<lambda>i. 0" "\<lambda>i. 7" "\<lambda>i. 9"]
  obtain enc q' dec' where e: "fec_conv_encode example_codec 1 (\<lambda>i. 0x41) (\<lambda>i. 0) = Inr enc"
    and d: "fec_conv_decode example_externals (\<lambda>i. 7) example_codec 1 enc (\<lambda>i. 9) = Inr (q', dec')"
    and r: "\<forall>i. dec' i = (if i < 1 then 0x41 else 9)"
    by blast
  from r have "dec' 0 = 0x41" "dec' 1 = 9"
    by simp_all
  with e d show ?thesis
    by blast
qed



end
